theory Spec2Isabelle
  imports Main "HOL-Library.AList" "HOL-Library.Sublist"
begin

section \<open>Data model of \<open>Collection\<close>\<close>

text \<open>
  The embedding follows \<open>collection.js\<close>. JavaScript values are restricted to the ones
  the index of a collection is built from: an id is absent (\<open>undefined\<close>), \<open>null\<close> or a
  number; a client id is the string \<open>c\<close> followed by a counter and is represented by the
  counter. A property key of \<open>_byId\<close> is the string a value is coerced to; on this domain
  the coercion is injective, and the two keys \<open>"undefined"\<close> and \<open>"[object Object]"\<close>
  that \<open>get\<close> may read are kept as keys of their own.
\<close>

datatype idval = Undefined | Null | Num int

datatype key = KCid nat | KNum int | KNull | KUndefined | KObject

fun key_of :: "idval \<Rightarrow> key" where
  "key_of Undefined = KUndefined"
| "key_of Null = KNull"
| "key_of (Num n) = KNum n"

text \<open>\<open>x != null\<close> of JavaScript: neither \<open>null\<close> nor \<open>undefined\<close>.\<close>

fun not_null :: "idval \<Rightarrow> bool" where
  "not_null Undefined = False"
| "not_null Null = False"
| "not_null (Num n) = True"

text \<open>
  An attribute hash: the id attribute, a property named \<open>cid\<close> (which \<open>get\<close> reads on a
  raw object) and the remaining attributes, here numbers under their names.
\<close>

record attrs =
  a_id :: idval
  a_cid :: "nat option"
  a_rest :: "(string \<times> int) list"

datatype coll_ref = This | Other

text \<open>
  A model object as the collection uses it. \<open>m_changed\<close> is what \<open>hasChanged\<close> reads,
  \<open>m_listens\<close> counts the handlers \<open>(all, _onModelEvent, this)\<close> registered by \<open>on\<close>.
\<close>

record model =
  attributes :: attrs
  previous :: attrs
  m_changed :: "string list"
  m_collection :: "coll_ref option"
  m_listens :: nat
  validationError :: "string option"

text \<open>The options objects. An absent property is \<open>None\<close>.\<close>

record options =
  o_add :: "bool option"
  o_remove :: "bool option"
  o_merge :: "bool option"
  o_at :: "int option"
  o_sort :: "bool option"
  o_silent :: "bool option"
  o_index :: "int option"

definition no_options :: options where
  "no_options = \<lparr>o_add = None, o_remove = None, o_merge = None, o_at = None,
     o_sort = None, o_silent = None, o_index = None\<rparr>"

definition over :: "'a option \<Rightarrow> 'a option \<Rightarrow> 'a option" where
  "over b a = (case a of None \<Rightarrow> b | Some v \<Rightarrow> Some v)"

text \<open>\<open>_.extend(a, b)\<close>: every property present in \<open>b\<close> replaces the one of \<open>a\<close>.\<close>

definition js_extend :: "options \<Rightarrow> options \<Rightarrow> options" where
  "js_extend a b = \<lparr>o_add = over (o_add a) (o_add b), o_remove = over (o_remove a) (o_remove b),
     o_merge = over (o_merge a) (o_merge b), o_at = over (o_at a) (o_at b),
     o_sort = over (o_sort a) (o_sort b), o_silent = over (o_silent a) (o_silent b),
     o_index = over (o_index a) (o_index b)\<rparr>"

definition setOptions :: options where
  "setOptions = no_options\<lparr>o_add := Some True, o_remove := Some True, o_merge := Some True\<rparr>"

definition addOptions :: options where
  "addOptions = no_options\<lparr>o_add := Some True, o_remove := Some False\<rparr>"

definition truthy :: "bool option \<Rightarrow> bool" where
  "truthy b = (b = Some True)"

text \<open>The three kinds of comparator: an attribute name, a key function, an ordering function.\<close>

datatype comparator =
    CmpAttr string
  | CmpKey "nat \<Rightarrow> attrs \<Rightarrow> int"
  | CmpFn "nat \<Rightarrow> attrs \<Rightarrow> nat \<Rightarrow> attrs \<Rightarrow> int"

text \<open>
  Events, as \<open>trigger\<close> is called: on a model or on the collection. Every entry of the log
  keeps the index \<open>_byId\<close> as it is when the event fires, which is what a listener that
  calls \<open>get\<close> during the event reads.
\<close>

datatype event =
    EvAdd nat "int option"
  | EvRemove nat "int option"
  | EvChange nat
  | EvSort
  | EvUpdate "nat list" "nat list" "nat list"
  | EvReset
  | EvInvalid "string"

datatype target = OnModel nat | OnCollection

record entry =
  e_target :: target
  e_event :: event
  e_byId :: "key \<rightharpoonup> nat"

text \<open>
  The collection with the objects it refers to: \<open>heap\<close> holds the model objects under
  their client id, \<open>next_cid\<close> is the counter of \<open>uniqueId\<close>, \<open>validate\<close> is the
  validation of the model class \<open>this.model\<close>.
\<close>

record collection =
  length_c :: int
  models :: "nat list"
  byId :: "key \<rightharpoonup> nat"
  comparator :: "comparator option"
  validate :: "attrs \<Rightarrow> string option"
  heap :: "nat \<Rightarrow> model"
  next_cid :: nat
  log :: "entry list"

datatype item = Ref nat | Raw attrs

datatype arg = Item item | ById idval | ByCid nat

datatype error = NoComparator | TypeError

section \<open>Lookup and events\<close>

text \<open>\<open>modelId\<close>: the id attribute of an attribute hash (\<open>idAttribute\<close> is \<open>id\<close>).\<close>

definition modelId :: "attrs \<Rightarrow> idval" where
  "modelId a = a_id a"

text \<open>\<open>a || b\<close> on lookups: a model found is truthy, \<open>undefined\<close> is not.\<close>

definition orElse :: "'a option \<Rightarrow> 'a option \<Rightarrow> 'a option" where
  "orElse a b = (case a of Some x \<Rightarrow> Some x | None \<Rightarrow> b)"

text \<open>
  \<open>get\<close>: the object itself as a key, then the id read from it, then its \<open>cid\<close>. A number
  or a string has neither an \<open>id\<close> nor a \<open>cid\<close> property; an object is coerced to the key
  \<open>"[object Object]"\<close>.
\<close>

fun get_c :: "collection \<Rightarrow> arg \<Rightarrow> nat option" where
  "get_c c (ById i) =
     (if \<not> not_null i then None else orElse (byId c (key_of i)) (byId c KUndefined))"
| "get_c c (ByCid n) = orElse (byId c (KCid n)) (byId c KUndefined)"
| "get_c c (Item (Raw a)) =
     orElse (byId c KObject) (orElse (byId c (key_of (modelId a)))
       (case a_cid a of None \<Rightarrow> None | Some n \<Rightarrow> byId c (KCid n)))"
| "get_c c (Item (Ref m)) =
     orElse (byId c KObject) (orElse (byId c (key_of (modelId (attributes (heap c m)))))
       (byId c (KCid m)))"

definition has_c :: "collection \<Rightarrow> arg \<Rightarrow> bool" where
  "has_c c x = (get_c c x \<noteq> None)"

text \<open>\<open>at\<close>: a negative index counts from \<open>length\<close>; out of range is \<open>undefined\<close>.\<close>

definition at_c :: "collection \<Rightarrow> int \<Rightarrow> nat option" where
  "at_c c index =
     (let i = (if index < 0 then index + length_c c else index)
      in if 0 \<le> i \<and> nat i < length (models c) then Some (models c ! nat i) else None)"

definition trigger :: "target \<Rightarrow> event \<Rightarrow> collection \<Rightarrow> collection" where
  "trigger t ev c = c\<lparr>log := log c @ [\<lparr>e_target = t, e_event = ev, e_byId = byId c\<rparr>]\<rparr>"

definition delete_key :: "key \<Rightarrow> collection \<Rightarrow> collection" where
  "delete_key k c = c\<lparr>byId := (byId c)(k := None)\<rparr>"

definition put_key :: "key \<Rightarrow> nat \<Rightarrow> collection \<Rightarrow> collection" where
  "put_key k m c = c\<lparr>byId := (byId c)(k \<mapsto> m)\<rparr>"

text \<open>
  \<open>_onModelEvent\<close>, for the events of this development (\<open>add\<close> and \<open>remove\<close> come from
  this collection, \<open>destroy\<close> is not among them): a \<open>change\<close> that moves the id moves its
  key; every event is triggered again on the collection.
\<close>

definition onModelEvent :: "event \<Rightarrow> nat \<Rightarrow> collection \<Rightarrow> collection" where
  "onModelEvent ev m c =
     (let c1 = (case ev of
           EvChange _ \<Rightarrow>
             (let prevId = modelId (previous (heap c m)); id = modelId (attributes (heap c m))
              in if prevId \<noteq> id
                 then (let c2 = (if not_null prevId then delete_key (key_of prevId) c else c)
                       in if not_null id then put_key (key_of id) m c2 else c2)
                 else c)
         | _ \<Rightarrow> c)
      in trigger OnCollection ev c1)"

text \<open>\<open>model.trigger\<close>: the event on the model, then each handler the collection registered.\<close>

definition model_trigger :: "nat \<Rightarrow> event \<Rightarrow> collection \<Rightarrow> collection" where
  "model_trigger m ev c =
     (let c1 = trigger (OnModel m) ev c
      in ((onModelEvent ev m) ^^ (m_listens (heap c1 m))) c1)"

section \<open>The model class, as the collection uses it\<close>

text \<open>
  Modelled from the spec: \<open>Model\<close> (\<open>model.js\<close>) is not among the sources. \<open>set\<close>
  merges the given attributes into the entity, keeps the attributes it had as
  \<open>previousAttributes\<close>, records the names that changed for \<open>hasChanged\<close>, and unless
  silent emits \<open>change\<close> when something changed.
\<close>

definition merge_attrs :: "attrs \<Rightarrow> attrs \<Rightarrow> attrs" where
  "merge_attrs old new =
     \<lparr>a_id = (if a_id new = Undefined then a_id old else a_id new),
      a_cid = over (a_cid old) (a_cid new),
      a_rest = fold (\<lambda>(k, v). AList.update k v) (a_rest new) (a_rest old)\<rparr>"

definition changes :: "attrs \<Rightarrow> attrs \<Rightarrow> string list" where
  "changes old new =
     (if a_id new \<noteq> Undefined \<and> a_id new \<noteq> a_id old then [''id''] else []) @
     (if a_cid new \<noteq> None \<and> a_cid new \<noteq> a_cid old then [''cid''] else []) @
     map fst (filter (\<lambda>(k, v). map_of (a_rest old) k \<noteq> Some v) (a_rest new))"

definition model_set :: "nat \<Rightarrow> attrs \<Rightarrow> options \<Rightarrow> collection \<Rightarrow> collection" where
  "model_set m new opts c =
     (let mo = heap c m; ch = changes (attributes mo) new;
          mo' = mo\<lparr>previous := attributes mo,
                   attributes := merge_attrs (attributes mo) new, m_changed := ch\<rparr>;
          c1 = c\<lparr>heap := (heap c)(m := mo')\<rparr>
      in if \<not> truthy (o_silent opts) \<and> ch \<noteq> [] then model_trigger m (EvChange m) c1 else c1)"

definition hasChanged :: "model \<Rightarrow> string option \<Rightarrow> bool" where
  "hasChanged mo a = (case a of None \<Rightarrow> m_changed mo \<noteq> [] | Some s \<Rightarrow> s \<in> set (m_changed mo))"

text \<open>
  Modelled from the spec: the constructor of the model class. The new entity gets the next
  client id and the given attributes; \<open>validate\<close> says whether construction reports a
  validation failure.
\<close>

definition new_model :: "attrs \<Rightarrow> collection \<Rightarrow> nat \<times> collection" where
  "new_model a c =
     (let n = next_cid c;
          mo = \<lparr>attributes = a, previous = a, m_changed = [], m_collection = Some This,
                m_listens = 0, validationError = validate c a\<rparr>
      in (n, c\<lparr>heap := (heap c)(n := mo), next_cid := Suc n\<rparr>))"

section \<open>References, preparation and removal\<close>

text \<open>\<open>_addReference\<close>: both keys of the model, then \<open>model.on('all', ...)\<close>.\<close>

definition addReference :: "nat \<Rightarrow> collection \<Rightarrow> collection" where
  "addReference m c =
     (let c1 = put_key (KCid m) m c;
          id = modelId (attributes (heap c1 m));
          c2 = (if not_null id then put_key (key_of id) m c1 else c1)
      in c2\<lparr>heap := (heap c2)(m := (heap c2 m)\<lparr>m_listens := Suc (m_listens (heap c2 m))\<rparr>)\<rparr>)"

text \<open>
  \<open>_removeReference\<close>: both keys, the back reference when it is this collection, and
  \<open>model.off('all', ...)\<close>, which drops every handler of the collection.
\<close>

definition removeReference :: "nat \<Rightarrow> collection \<Rightarrow> collection" where
  "removeReference m c =
     (let c1 = delete_key (KCid m) c;
          id = modelId (attributes (heap c1 m));
          c2 = (if not_null id then delete_key (key_of id) c1 else c1);
          mo = heap c2 m;
          mo1 = (if m_collection mo = Some This then mo\<lparr>m_collection := None\<rparr> else mo)
      in c2\<lparr>heap := (heap c2)(m := mo1\<lparr>m_listens := 0\<rparr>)\<rparr>)"

text \<open>
  \<open>_prepareModel\<close>: a model is returned as it is (with its back reference set when it
  has none); a raw object is constructed, and a validation failure triggers \<open>invalid\<close>
  on the collection and gives \<open>false\<close>, here \<open>None\<close>.
\<close>

fun prepareModel :: "item \<Rightarrow> collection \<Rightarrow> nat option \<times> collection" where
  "prepareModel (Ref m) c =
     (let mo = heap c m
      in (Some m, if m_collection mo = None
                  then c\<lparr>heap := (heap c)(m := mo\<lparr>m_collection := Some This\<rparr>)\<rparr> else c))"
| "prepareModel (Raw a) c =
     (case new_model a c of (n, c1) \<Rightarrow>
        (case validationError (heap c1 n) of
           None \<Rightarrow> (Some n, c1)
         | Some e \<Rightarrow> (None, trigger OnCollection (EvInvalid e) c1)))"

text \<open>\<open>indexOf\<close>: the first position of the model, or \<open>-1\<close>.\<close>

fun indexOf :: "nat list \<Rightarrow> nat \<Rightarrow> int" where
  "indexOf [] m = -1"
| "indexOf (x # xs) m = (if x = m then 0 else (let i = indexOf xs m in if i < 0 then -1 else i + 1))"

text \<open>\<open>array.splice(index, 1)\<close>: a negative index counts from the end.\<close>

definition splice1 :: "nat list \<Rightarrow> int \<Rightarrow> nat list" where
  "splice1 xs index =
     (let n = int (length xs);
          start = nat (if index < 0 then max (n + index) 0 else min index n)
      in take start xs @ drop (Suc start) xs)"

text \<open>
  The body of the loop of \<open>_removeModels\<close> for a model that \<open>get\<close> found. The options
  object is shared with the caller and keeps the \<open>index\<close> written for the \<open>remove\<close> event.
\<close>

definition remove_found :: "nat \<Rightarrow> options \<Rightarrow> collection \<Rightarrow> options \<times> collection" where
  "remove_found m opts c =
     (let index = indexOf (models c) m;
          c1 = c\<lparr>models := splice1 (models c) index, length_c := length_c c - 1\<rparr>;
          c2 = delete_key (KCid m) c1;
          id = modelId (attributes (heap c2 m));
          c3 = (if not_null id then delete_key (key_of id) c2 else c2);
          opts1 = (if \<not> truthy (o_silent opts) then opts\<lparr>o_index := Some index\<rparr> else opts);
          c4 = (if \<not> truthy (o_silent opts)
                then model_trigger m (EvRemove m (o_index opts1)) c3 else c3)
      in (opts1, removeReference m c4))"

text \<open>\<open>_removeModels\<close>: the loop over the models to remove; a model not found is skipped.\<close>

fun removeModels ::
  "arg list \<Rightarrow> options \<Rightarrow> nat list \<Rightarrow> collection \<Rightarrow> nat list \<times> options \<times> collection" where
  "removeModels [] opts removed c = (removed, opts, c)"
| "removeModels (x # xs) opts removed c =
     (case get_c c x of
        None \<Rightarrow> removeModels xs opts removed c
      | Some m \<Rightarrow>
          (case remove_found m opts c of
             (opts1, c1) \<Rightarrow> removeModels xs opts1 (removed @ [m]) c1))"

text \<open>
  \<open>remove\<close>. The argument is the array the call works on (a single model is the array of
  that model); the result is the array \<open>removed\<close>.
\<close>

definition remove_c :: "arg list \<Rightarrow> options \<Rightarrow> collection \<Rightarrow> nat list \<times> collection" where
  "remove_c ms options c =
     (case removeModels ms (js_extend no_options options) [] c of
        (removed, opts, c1) \<Rightarrow>
          (removed, if \<not> truthy (o_silent opts) \<and> removed \<noteq> []
                    then trigger OnCollection (EvUpdate [] removed []) c1 else c1))"

section \<open>Splicing and sorting\<close>

text \<open>
  A write into an array at an index below its length replaces the element; a write at the
  length appends. The loops of \<open>splice\<close> write nowhere else.
\<close>

definition store :: "'a list \<Rightarrow> nat \<Rightarrow> 'a \<Rightarrow> 'a list" where
  "store a i v = (if i < length a then a[i := v] else a @ [v])"

text \<open>\<open>splice(array, insert, at)\<close>, its three loops in turn.\<close>

definition splice_c :: "'a list \<Rightarrow> 'a list \<Rightarrow> int \<Rightarrow> 'a list" where
  "splice_c array ins at =
     (let at1 = nat (min (max at 0) (int (length array)));
          tail = map (\<lambda>i. array ! (i + at1)) [0..<length array - at1];
          len = length ins;
          a1 = fold (\<lambda>i a. store a (i + at1) (ins ! i)) [0..<len] array;
          a2 = fold (\<lambda>i a. store a (i + len + at1) (tail ! i)) [0..<length tail] a1
      in a2)"

text \<open>
  \<open>model.get(attr)\<close> for the attribute a comparator names: the id, the property \<open>cid\<close>
  (the string \<open>c\<close> followed by a counter) or one of the other attributes, which are
  numbers; \<open>undefined\<close> where the model has no such attribute.
\<close>

datatype sortkey = SUndefined | SNull | SNum int | SCid nat

definition get_attr :: "collection \<Rightarrow> nat \<Rightarrow> string \<Rightarrow> sortkey" where
  "get_attr c m s =
     (let a = attributes (heap c m)
      in if s = ''id'' then (case a_id a of Undefined \<Rightarrow> SUndefined | Null \<Rightarrow> SNull | Num n \<Rightarrow> SNum n)
         else if s = ''cid'' then (case a_cid a of None \<Rightarrow> SUndefined | Some n \<Rightarrow> SCid n)
         else (case map_of (a_rest a) s of None \<Rightarrow> SUndefined | Some v \<Rightarrow> SNum v))"

text \<open>The decimal digits of a counter, and the order of strings on them.\<close>

fun digits :: "nat \<Rightarrow> nat list" where
  "digits n = (if n < 10 then [n] else digits (n div 10) @ [n mod 10])"

declare digits.simps [simp del]

fun lex_less :: "nat list \<Rightarrow> nat list \<Rightarrow> bool" where
  "lex_less [] [] = False"
| "lex_less [] (y # ys) = True"
| "lex_less (x # xs) [] = False"
| "lex_less (x # xs) (y # ys) = (x < y \<or> (x = y \<and> lex_less xs ys))"

text \<open>
  The comparison under \<open>sortBy\<close> of the library, which is not among the sources: a key
  sorts after another when it is greater by \<open>>\<close> of JavaScript (numbers by value, two
  strings by their characters, a number and a string not at all), \<open>null\<close> after every
  number and string, \<open>undefined\<close> after everything else.
\<close>

fun sorts_after :: "sortkey \<Rightarrow> sortkey \<Rightarrow> bool" where
  "sorts_after (SNum x) (SNum y) = (x > y)"
| "sorts_after (SCid x) (SCid y) = lex_less (digits y) (digits x)"
| "sorts_after SNull (SNum y) = True"
| "sorts_after SNull (SCid y) = True"
| "sorts_after SUndefined SUndefined = False"
| "sorts_after SUndefined b = True"
| "sorts_after a b = False"

text \<open>
  Sorting is stable: \<open>sortBy\<close> for an attribute name or a key function, \<open>Array.sort\<close> for
  an ordering function. Both are taken as the stable insertion sort of the order they are
  given.
\<close>

fun insort_by :: "('a \<Rightarrow> 'a \<Rightarrow> bool) \<Rightarrow> 'a \<Rightarrow> 'a list \<Rightarrow> 'a list" where
  "insort_by le x [] = [x]"
| "insort_by le x (y # ys) = (if le x y then x # y # ys else y # insort_by le x ys)"

definition sort_by :: "('a \<Rightarrow> 'a \<Rightarrow> bool) \<Rightarrow> 'a list \<Rightarrow> 'a list" where
  "sort_by le xs = foldr (insort_by le) xs []"

fun sorted_models :: "comparator \<Rightarrow> collection \<Rightarrow> nat list" where
  "sorted_models (CmpAttr s) c =
     sort_by (\<lambda>a b. \<not> sorts_after (get_attr c a s) (get_attr c b s)) (models c)"
| "sorted_models (CmpKey f) c =
     sort_by (\<lambda>a b. f a (attributes (heap c a)) \<le> f b (attributes (heap c b))) (models c)"
| "sorted_models (CmpFn f) c =
     sort_by (\<lambda>a b. f a (attributes (heap c a)) b (attributes (heap c b)) \<le> 0) (models c)"

text \<open>Truthiness of \<open>this.comparator\<close>: the empty attribute name is not a comparator.\<close>

fun configured :: "comparator option \<Rightarrow> bool" where
  "configured None = False"
| "configured (Some (CmpAttr s)) = (s \<noteq> [])"
| "configured (Some _) = True"

text \<open>
  A call that throws leaves the collection as it is at the throw: the outcome is the error
  with that state, or the result.
\<close>

type_synonym 'a outcome = "(error \<times> collection) + 'a"

text \<open>\<open>sort\<close>: without a comparator it throws before anything else.\<close>

definition sort_c :: "options \<Rightarrow> collection \<Rightarrow> collection outcome" where
  "sort_c options c =
     (case comparator c of
        None \<Rightarrow> Inl (NoComparator, c)
      | Some cmp \<Rightarrow>
          if \<not> configured (Some cmp) then Inl (NoComparator, c)
          else (let c1 = c\<lparr>models := sorted_models cmp c\<rparr>
                in Inr (if \<not> truthy (o_silent options) then trigger OnCollection EvSort c1 else c1)))"

section \<open>CollectionIterator\<close>

datatype kind = ITERATOR_VALUES | ITERATOR_KEYS | ITERATOR_KEYSVALUES

text \<open>\<open>it_collection\<close> is false once \<open>_collection\<close> has been set to \<open>undefined\<close>.\<close>

record iterator =
  it_collection :: bool
  it_kind :: kind
  it_index :: int

datatype itvalue = VModel "nat option" | VKey idval | VPair idval nat

record itresult =
  r_value :: "itvalue option"
  r_done :: bool

definition CollectionIterator :: "kind \<Rightarrow> iterator" where
  "CollectionIterator k = \<lparr>it_collection = True, it_kind = k, it_index = 0\<rparr>"

definition values_c :: iterator where "values_c = CollectionIterator ITERATOR_VALUES"
definition keys_c :: iterator where "keys_c = CollectionIterator ITERATOR_KEYS"
definition entries_c :: iterator where "entries_c = CollectionIterator ITERATOR_KEYSVALUES"

definition done_result :: itresult where
  "done_result = \<lparr>r_value = None, r_done = True\<rparr>"

text \<open>
  \<open>next\<close>, on the collection as it is at the call. Reading the attributes of a model that
  \<open>at\<close> did not find is a TypeError.
\<close>

definition next_it :: "collection \<Rightarrow> iterator \<Rightarrow> error + (iterator \<times> itresult)" where
  "next_it c it =
     (if it_collection it then
        (if it_index it < length_c c then
           (let model = at_c c (it_index it); it1 = it\<lparr>it_index := it_index it + 1\<rparr>
            in if it_kind it = ITERATOR_VALUES
               then Inr (it1, \<lparr>r_value = Some (VModel model), r_done = False\<rparr>)
               else (case model of
                       None \<Rightarrow> Inl TypeError
                     | Some m \<Rightarrow>
                         (let id = modelId (attributes (heap c m))
                          in if it_kind it = ITERATOR_KEYS
                             then Inr (it1, \<lparr>r_value = Some (VKey id), r_done = False\<rparr>)
                             else Inr (it1, \<lparr>r_value = Some (VPair id m), r_done = False\<rparr>))))
         else Inr (it\<lparr>it_collection := False\<rparr>, done_result))
      else Inr (it, done_result))"

section \<open>\<open>set\<close>, \<open>add\<close> and \<open>reset\<close>\<close>

text \<open>What \<open>models[i]\<close> holds when \<open>set\<close> returns: a model, \<open>false\<close>, or the item untouched.\<close>

datatype res = RModel nat | RFalse | RItem item

text \<open>The local variables of \<open>set\<close> that its first loop fills.\<close>

record setloop =
  l_set :: "nat list"
  l_toAdd :: "nat list"
  l_toMerge :: "nat list"
  l_modelMap :: "nat set"
  l_sort :: bool
  l_out :: "res list"

definition setloop0 :: setloop where
  "setloop0 = \<lparr>l_set = [], l_toAdd = [], l_toMerge = [], l_modelMap = {}, l_sort = False,
     l_out = []\<rparr>"

text \<open>The insertion index: \<open>at\<close> above \<open>length\<close> becomes \<open>length\<close>, a negative one counts from the end.\<close>

definition resolve_at :: "int option \<Rightarrow> int \<Rightarrow> int option" where
  "resolve_at at len =
     (case at of
        None \<Rightarrow> None
      | Some a \<Rightarrow> (let a1 = (if a > len then len else a)
                  in Some (if a1 < 0 then a1 + len + 1 else a1)))"

definition sortAttr_of :: "comparator option \<Rightarrow> string option" where
  "sortAttr_of cmp = (case cmp of Some (CmpAttr s) \<Rightarrow> Some s | _ \<Rightarrow> None)"

definition item_attrs :: "collection \<Rightarrow> item \<Rightarrow> attrs" where
  "item_attrs c x = (case x of Ref m \<Rightarrow> attributes (heap c m) | Raw a \<Rightarrow> a)"

text \<open>One round of the first loop of \<open>set\<close>.\<close>

definition set_step ::
  "options \<Rightarrow> bool \<Rightarrow> string option \<Rightarrow> item \<Rightarrow> setloop \<times> collection \<Rightarrow> setloop \<times> collection" where
  "set_step options sortable sortAttr x lc =
     (case lc of (l, c) \<Rightarrow>
      (case get_c c (Item x) of
         Some existing \<Rightarrow>
           (let (l1, c1) =
                  (if truthy (o_merge options) \<and> x \<noteq> Ref existing
                   then (let c1 = model_set existing (item_attrs c x) options c
                         in (l\<lparr>l_toMerge := l_toMerge l @ [existing],
                               l_sort := (if sortable \<and> \<not> l_sort l
                                          then hasChanged (heap c1 existing) sortAttr
                                          else l_sort l)\<rparr>, c1))
                   else (l, c));
                l2 = (if existing \<notin> l_modelMap l1
                      then l1\<lparr>l_modelMap := insert existing (l_modelMap l1),
                              l_set := l_set l1 @ [existing]\<rparr>
                      else l1)
            in (l2\<lparr>l_out := l_out l2 @ [RModel existing]\<rparr>, c1))
       | None \<Rightarrow>
           if truthy (o_add options)
           then (case prepareModel x c of
                   (Some m, c1) \<Rightarrow>
                     (l\<lparr>l_toAdd := l_toAdd l @ [m], l_modelMap := insert m (l_modelMap l),
                        l_set := l_set l @ [m], l_out := l_out l @ [RModel m]\<rparr>,
                      addReference m c1)
                 | (None, c1) \<Rightarrow> (l\<lparr>l_out := l_out l @ [RFalse]\<rparr>, c1))
           else (l\<lparr>l_out := l_out l @ [RItem x]\<rparr>, c)))"

text \<open>
  The models to remove: the loop runs to \<open>this.length\<close> and reads \<open>cid\<close> of
  \<open>this.models[i]\<close>, a TypeError where the array is shorter.
\<close>

definition stale :: "collection \<Rightarrow> nat set \<Rightarrow> error + nat list" where
  "stale c mm =
     (if int (length (models c)) < length_c c then Inl TypeError
      else Inr (filter (\<lambda>m. m \<notin> mm) (take (nat (length_c c)) (models c))))"

text \<open>\<open>_.some(this.models, (m, index) => m !== set[index])\<close>.\<close>

fun differs :: "nat list \<Rightarrow> nat list \<Rightarrow> bool" where
  "differs [] ys = False"
| "differs (x # xs) [] = True"
| "differs (x # xs) (y # ys) = (x \<noteq> y \<or> differs xs ys)"

text \<open>The loop that triggers \<open>add\<close> on every new model; \<open>index\<close> is written only under \<open>at\<close>.\<close>

fun add_events ::
  "nat list \<Rightarrow> int option \<Rightarrow> int \<Rightarrow> options \<Rightarrow> collection \<Rightarrow> options \<times> collection" where
  "add_events [] at i opts c = (opts, c)"
| "add_events (m # ms) at i opts c =
     (let opts1 = (case at of Some a \<Rightarrow> opts\<lparr>o_index := Some (a + i)\<rparr> | None \<Rightarrow> opts)
      in add_events ms at (i + 1) opts1 (model_trigger m (EvAdd m (o_index opts1)) c))"

text \<open>The structural update of \<open>set\<close>: the new state, \<open>sort\<close> and \<open>orderChanged\<close>.\<close>

definition set_place ::
  "options \<Rightarrow> bool \<Rightarrow> int option \<Rightarrow> setloop \<Rightarrow> collection \<Rightarrow> collection \<times> bool \<times> bool" where
  "set_place options sortable at l c =
     (let replace = (\<not> sortable \<and> truthy (o_add options) \<and> truthy (o_remove options))
      in if l_set l \<noteq> [] \<and> replace
         then (let orderChanged = (length_c c \<noteq> int (length (l_set l)) \<or> differs (models c) (l_set l));
                   ms = splice_c [] (l_set l) 0
               in (c\<lparr>models := ms, length_c := int (length ms)\<rparr>, l_sort l, orderChanged))
         else if l_toAdd l \<noteq> []
         then (let ms = splice_c (models c) (l_toAdd l) (case at of None \<Rightarrow> length_c c | Some a \<Rightarrow> a)
               in (c\<lparr>models := ms, length_c := int (length ms)\<rparr>,
                   (if sortable then True else l_sort l), False))
         else (c, l_sort l, False))"

text \<open>The events of \<open>set\<close>: \<open>add\<close> for each new model, \<open>sort\<close>, \<open>update\<close>.\<close>

definition set_emit ::
  "options \<Rightarrow> int option \<Rightarrow> setloop \<Rightarrow> nat list \<Rightarrow> bool \<Rightarrow> bool \<Rightarrow> collection \<Rightarrow> collection" where
  "set_emit options at l toRemove srt orderChanged c =
     (if \<not> truthy (o_silent options)
      then (case add_events (l_toAdd l) at 0 options c of
              (opts1, c1) \<Rightarrow>
                (let c2 = (if srt \<or> orderChanged then trigger OnCollection EvSort c1 else c1)
                 in if l_toAdd l \<noteq> [] \<or> toRemove \<noteq> [] \<or> l_toMerge l \<noteq> []
                    then trigger OnCollection (EvUpdate (l_toAdd l) toRemove (l_toMerge l)) c2
                    else c2))
      else c)"

text \<open>
  The head of \<open>set\<close>: the options over the defaults, the insertion index, whether the
  collection is kept sorted, and the first loop. The \<open>parse\<close> option is not among the
  options here.
\<close>

definition set_opts :: "options \<Rightarrow> options" where
  "set_opts options0 = js_extend (js_extend no_options setOptions) options0"

definition set_at :: "options \<Rightarrow> collection \<Rightarrow> int option" where
  "set_at options0 c = resolve_at (o_at (set_opts options0)) (length_c c)"

definition set_sortable :: "options \<Rightarrow> collection \<Rightarrow> bool" where
  "set_sortable options0 c =
     (configured (comparator c) \<and> set_at options0 c = None \<and> o_sort (set_opts options0) \<noteq> Some False)"

definition set_scan :: "item list \<Rightarrow> options \<Rightarrow> collection \<Rightarrow> setloop \<times> collection" where
  "set_scan ms options0 c =
     fold (set_step (set_opts options0) (set_sortable options0 c) (sortAttr_of (comparator c)))
       ms (setloop0, c)"

text \<open>
  \<open>set\<close>. The argument is the array the call works on (a single item is the array of that
  item); the result is the array \<open>models\<close> of the call.
\<close>

definition set_c :: "item list \<Rightarrow> options \<Rightarrow> collection \<Rightarrow> (res list \<times> collection) outcome" where
  "set_c ms options0 c =
     (let options = set_opts options0;
          at = set_at options0 c;
          sortable = set_sortable options0 c
      in case set_scan ms options0 c of
           (l, c1) \<Rightarrow>
             (case (if truthy (o_remove options) then stale c1 (l_modelMap l) else Inr []) of
                Inl e \<Rightarrow> Inl (e, c1)
              | Inr toRemove \<Rightarrow>
                  (case (if toRemove \<noteq> []
                         then removeModels (map (\<lambda>m. Item (Ref m)) toRemove) options [] c1
                         else ([], options, c1)) of
                     (removed, options1, c2) \<Rightarrow>
                       (case set_place options1 sortable at l c2 of
                          (c3, srt, orderChanged) \<Rightarrow>
                            (case (if srt then sort_c (no_options\<lparr>o_silent := Some True\<rparr>) c3
                                   else Inr c3) of
                               Inl e \<Rightarrow> Inl e
                             | Inr c4 \<Rightarrow>
                                 Inr (l_out l,
                                      set_emit options1 at l toRemove srt orderChanged c4))))))"

text \<open>\<open>add\<close>: \<open>set\<close> under \<open>_.extend({merge: false}, options, addOptions)\<close>.\<close>

definition add_c :: "item list \<Rightarrow> options \<Rightarrow> collection \<Rightarrow> (res list \<times> collection) outcome" where
  "add_c ms options c =
     set_c ms (js_extend (js_extend (no_options\<lparr>o_merge := Some False\<rparr>) options) addOptions) c"

definition reset_state :: "collection \<Rightarrow> collection" where
  "reset_state c = c\<lparr>length_c := 0, models := [], byId := Map.empty\<rparr>"

text \<open>\<open>reset\<close>: the references of all models are removed, then the state is emptied.\<close>

definition reset_c :: "item list \<Rightarrow> options \<Rightarrow> collection \<Rightarrow> (res list \<times> collection) outcome" where
  "reset_c ms options0 c =
     (let options = js_extend no_options options0;
          c1 = fold removeReference (models c) c;
          c2 = reset_state c1
      in case add_c ms (js_extend (no_options\<lparr>o_silent := Some True\<rparr>) options) c2 of
           Inl e \<Rightarrow> Inl e
         | Inr (out, c3) \<Rightarrow>
             Inr (out, if \<not> truthy (o_silent options) then trigger OnCollection EvReset c3 else c3))"

text \<open>\<open>toJSON\<close>: the attributes of every model, as raw objects.\<close>

definition toJSON :: "collection \<Rightarrow> item list" where
  "toJSON c = map (\<lambda>m. Raw (attributes (heap c m))) (models c)"

text \<open>
  Successive calls of \<open>next\<close> on one iterator, the collection being in the given states
  at the calls; a call that throws ends the run.
\<close>

fun nexts :: "collection list \<Rightarrow> iterator \<Rightarrow> (error + itresult) list" where
  "nexts [] it = []"
| "nexts (c # cs) it =
     (case next_it c it of
        Inl e \<Rightarrow> [Inl e]
      | Inr (it1, r) \<Rightarrow> Inr r # nexts cs it1)"

text \<open>An empty collection: \<open>_reset\<close> on a collection that holds nothing yet.\<close>

definition blank_attrs :: attrs where
  "blank_attrs = \<lparr>a_id = Undefined, a_cid = None, a_rest = []\<rparr>"

definition blank_model :: model where
  "blank_model = \<lparr>attributes = blank_attrs, previous = blank_attrs, m_changed = [],
     m_collection = None, m_listens = 0, validationError = None\<rparr>"

definition empty_collection :: collection where
  "empty_collection = \<lparr>length_c = 0, models = [], byId = Map.empty, comparator = None,
     validate = (\<lambda>a. None), heap = (\<lambda>n. blank_model), next_cid = 1, log = []\<rparr>"

definition raw_id :: "int \<Rightarrow> item" where
  "raw_id n = Raw (blank_attrs\<lparr>a_id := Num n\<rparr>)"

section \<open>What a listener observes\<close>

text \<open>The entries a call has added to the log of events.\<close>

definition new_entries :: "collection \<Rightarrow> collection \<Rightarrow> entry list" where
  "new_entries c c' = drop (length (log c)) (log c')"

text \<open>\<open>get\<close> called by a listener during an event: the lookup in the index as the event found it.\<close>

definition listener_get :: "collection \<Rightarrow> entry \<Rightarrow> arg \<Rightarrow> nat option" where
  "listener_get c e x = get_c (c\<lparr>byId := e_byId e\<rparr>) x"

text \<open>
  For a \<open>remove\<close> event: both keys of the removed model are gone from the index the event
  finds, and \<open>get\<close> of its id finds nothing.
\<close>

definition purged :: "collection \<Rightarrow> entry \<Rightarrow> bool" where
  "purged c e =
     (case e_event e of
        EvRemove m i \<Rightarrow>
          (let id = modelId (attributes (heap c m))
           in e_byId e (KCid m) = None
              \<and> (not_null id \<longrightarrow> e_byId e (key_of id) = None)
              \<and> listener_get c e (ById id) = None)
      | _ \<Rightarrow> True)"

text \<open>A call has only added entries to the log, each of them satisfying \<open>P\<close>.\<close>

definition appended :: "(entry \<Rightarrow> bool) \<Rightarrow> collection \<Rightarrow> collection \<Rightarrow> bool" where
  "appended P c c' = (\<exists>new. log c' = log c @ new \<and> list_all P new)"

fun is_add :: "event \<Rightarrow> bool" where
  "is_add (EvAdd m i) = True"
| "is_add _ = False"

fun is_remove :: "event \<Rightarrow> bool" where
  "is_remove (EvRemove m i) = True"
| "is_remove _ = False"

fun is_invalid :: "event \<Rightarrow> bool" where
  "is_invalid (EvInvalid s) = True"
| "is_invalid _ = False"

fun is_change :: "event \<Rightarrow> bool" where
  "is_change (EvChange m) = True"
| "is_change _ = False"

text \<open>The collection after a call, whether the call returned or threw.\<close>

definition state_of :: "('a \<times> collection) outcome \<Rightarrow> collection" where
  "state_of r = (case r of Inl (e, c) \<Rightarrow> c | Inr (out, c) \<Rightarrow> c)"

text \<open>A call that returned, as opposed to one that threw.\<close>

definition returned :: "'a outcome \<Rightarrow> bool" where
  "returned r = (case r of Inl e \<Rightarrow> False | Inr v \<Rightarrow> True)"


section \<open>Sample collections\<close>

definition sample_model :: "idval \<Rightarrow> model" where
  "sample_model i = blank_model\<lparr>attributes := blank_attrs\<lparr>a_id := i\<rparr>,
     previous := blank_attrs\<lparr>a_id := i\<rparr>, m_collection := Some This, m_listens := 1\<rparr>"

text \<open>Two models: \<open>c1\<close> with id 5 and \<open>c2\<close> without an id.\<close>

definition two_models :: collection where
  "two_models = empty_collection\<lparr>length_c := 2, models := [1, 2],
     byId := [KCid 1 \<mapsto> 1, KNum 5 \<mapsto> 1, KCid 2 \<mapsto> 2],
     heap := (\<lambda>n. blank_model)(1 := sample_model (Num 5), 2 := sample_model Undefined),
     next_cid := 3\<rparr>"


section \<open>The events a call triggers itself\<close>

text \<open>
  An entry that \<open>_onModelEvent\<close> triggered again on the collection, after the event of a
  model; the other entries are the calls of \<open>trigger\<close> that a method makes itself.
\<close>

definition proxied :: "entry \<Rightarrow> bool" where
  "proxied e = (e_target e = OnCollection
     \<and> (is_add (e_event e) \<or> is_remove (e_event e) \<or> is_change (e_event e)))"

definition direct :: "entry list \<Rightarrow> event list" where
  "direct es = map e_event (filter (\<lambda>e. \<not> proxied e) es)"




section \<open>The index and the list of models\<close>

definition idOf :: "collection \<Rightarrow> nat \<Rightarrow> idval" where
  "idOf c m = modelId (attributes (heap c m))"

text \<open>
  The consistency of the index with the list of models, as it is claimed: \<open>length\<close> is the
  length of \<open>models\<close>; every model in \<open>models\<close> is found under its \<open>cid\<close> and, when its id
  is not null, under its id; and the index holds nothing but models that are in \<open>models\<close>.
\<close>

definition index_consistent :: "collection \<Rightarrow> bool" where
  "index_consistent c =
     (length_c c = int (length (models c))
      \<and> (\<forall>m\<in>set (models c). byId c (KCid m) = Some m
            \<and> (not_null (idOf c m) \<longrightarrow> byId c (key_of (idOf c m)) = Some m))
      \<and> (\<forall>k m. byId c k = Some m \<longrightarrow> m \<in> set (models c)))"

text \<open>
  The index holds exactly the models of \<open>M\<close>, each under its \<open>cid\<close> and its id and under
  no other key; every model of \<open>M\<close> has been constructed, and the collection listens to it.
\<close>

definition indexed :: "nat set \<Rightarrow> collection \<Rightarrow> bool" where
  "indexed M c =
     ((\<forall>m\<in>M. byId c (KCid m) = Some m
          \<and> (not_null (idOf c m) \<longrightarrow> byId c (key_of (idOf c m)) = Some m)
          \<and> m < next_cid c \<and> 0 < m_listens (heap c m))
      \<and> (\<forall>k m. byId c k = Some m \<longrightarrow>
            m \<in> M \<and> (k = KCid m \<or> (not_null (idOf c m) \<and> k = key_of (idOf c m)))))"

definition inv :: "collection \<Rightarrow> bool" where
  "inv c = (length_c c = int (length (models c)) \<and> distinct (models c)
            \<and> indexed (set (models c)) c)"

text \<open>What the first loop of \<open>set\<close> keeps, \<open>M0\<close> being the models of the collection.\<close>

definition scan_inv :: "nat set \<Rightarrow> setloop \<times> collection \<Rightarrow> bool" where
  "scan_inv M0 lc =
     (case lc of (l, c) \<Rightarrow>
        indexed (M0 \<union> set (l_toAdd l)) c \<and> distinct (l_toAdd l) \<and> set (l_toAdd l) \<inter> M0 = {}
        \<and> l_modelMap l = set (l_set l) \<and> distinct (l_set l)
        \<and> set (l_toAdd l) \<subseteq> set (l_set l) \<and> set (l_set l) \<subseteq> M0 \<union> set (l_toAdd l))"

text \<open>
  The items a call can be given here: a model that has been constructed; and, when the call
  is silent and merges, no raw object that names a model by \<open>cid\<close> and brings an id.
\<close>

fun item_ok :: "options \<Rightarrow> collection \<Rightarrow> item \<Rightarrow> bool" where
  "item_ok opts c (Ref m) = (m < next_cid c)"
| "item_ok opts c (Raw a) =
     (\<not> (truthy (o_silent opts) \<and> truthy (o_merge opts)) \<or> a_cid a = None \<or> a_id a = Undefined)"

text \<open>The public calls, the options each of them hands to \<open>set\<close>, and sequences of calls.\<close>

datatype call =
    Add "item list" options
  | Remove "arg list" options
  | Set "item list" options
  | Reset "item list" options

definition add_opts :: "options \<Rightarrow> options" where
  "add_opts options = js_extend (js_extend (no_options\<lparr>o_merge := Some False\<rparr>) options) addOptions"

definition reset_opts :: "options \<Rightarrow> options" where
  "reset_opts options0 =
     add_opts (js_extend (no_options\<lparr>o_silent := Some True\<rparr>) (js_extend no_options options0))"

fun call_ok :: "collection \<Rightarrow> call \<Rightarrow> bool" where
  "call_ok c (Add ms options) = list_all (item_ok (set_opts (add_opts options)) c) ms"
| "call_ok c (Remove xs options) = True"
| "call_ok c (Set ms options) = list_all (item_ok (set_opts options) c) ms"
| "call_ok c (Reset ms options) = list_all (item_ok (set_opts (reset_opts options)) c) ms"

fun run_call :: "call \<Rightarrow> collection \<Rightarrow> collection" where
  "run_call (Add ms options) c = state_of (add_c ms options c)"
| "run_call (Remove xs options) c = snd (remove_c xs options c)"
| "run_call (Set ms options) c = state_of (set_c ms options c)"
| "run_call (Reset ms options) c = state_of (reset_c ms options c)"

fun run :: "call list \<Rightarrow> collection \<Rightarrow> collection" where
  "run [] c = c"
| "run (k # ks) c = run ks (run_call k c)"

fun calls_ok :: "collection \<Rightarrow> call list \<Rightarrow> bool" where
  "calls_ok c [] = True"
| "calls_ok c (k # ks) = (call_ok c k \<and> calls_ok (run_call k c) ks)"

text \<open>The index after \<open>_onModelEvent\<close> has handled a \<open>change\<close> of model \<open>m\<close> from id \<open>p\<close> to id \<open>i\<close>.\<close>

definition moved :: "idval \<Rightarrow> idval \<Rightarrow> nat \<Rightarrow> (key \<rightharpoonup> nat) \<Rightarrow> (key \<rightharpoonup> nat)" where
  "moved p i m B =
     (if p \<noteq> i
      then (let B1 = (if not_null p then B(key_of p := None) else B)
            in if not_null i then B1(key_of i \<mapsto> m) else B1)
      else B)"

text \<open>Two models with ids: the collection after \<open>add([{id: 5}, {id: 9}])\<close>.\<close>

definition two_with_ids :: collection where
  "two_with_ids = run [Add [raw_id 5, raw_id 9] no_options] (reset_state empty_collection)"

section \<open>\<open>splice\<close> inserts at the clamped index\<close>

lemma store_at_end: "store (p @ drop m xs) (length p) v = p @ v # drop (Suc m) xs"
proof (cases "m < length xs")
  case True
  then have "drop m xs = xs ! m # drop (Suc m) xs" by (simp add: Cons_nth_drop_Suc)
  then show ?thesis by (simp add: store_def list_update_append)
next
  case False
  then show ?thesis by (simp add: store_def)
qed

lemma fold_store:
  "j \<le> length ys \<Longrightarrow>
   fold (\<lambda>i a. store a (i + length p) (ys ! i)) [0..<j] (p @ drop m xs)
     = p @ take j ys @ drop (m + j) xs"
proof (induction j)
  case 0
  then show ?case by simp
next
  case (Suc j)
  then have IH: "fold (\<lambda>i a. store a (i + length p) (ys ! i)) [0..<j] (p @ drop m xs)
     = p @ take j ys @ drop (m + j) xs" by simp
  have "store ((p @ take j ys) @ drop (m + j) xs) (length (p @ take j ys)) (ys ! j)
      = (p @ take j ys) @ ys ! j # drop (Suc (m + j)) xs"
    by (rule store_at_end)
  moreover have "length (p @ take j ys) = j + length p" using Suc.prems by simp
  moreover have "take (Suc j) ys = take j ys @ [ys ! j]" using Suc.prems
    by (simp add: take_Suc_conv_app_nth)
  ultimately show ?case using IH by (simp add: add.commute)
qed

lemma map_nth_drop: "map (\<lambda>i. xs ! (i + a)) [0..<length xs - a] = drop a xs"
  by (rule nth_equalityI) (simp_all add: add.commute)

lemma splice_c_eq:
  "splice_c array ins at =
     (let at1 = nat (min (max at 0) (int (length array)))
      in take at1 array @ ins @ drop at1 array)"
proof -
  define a where "a = nat (min (max at 0) (int (length array)))"
  have a_le: "a \<le> length array" by (simp add: a_def)
  define k where "k = length ins"
  have l2: "fold (\<lambda>i x. store x (i + a) (ins ! i)) [0..<k] array
      = take a array @ ins @ drop (a + k) array"
  proof -
    have "fold (\<lambda>i x. store x (i + length (take a array)) (ins ! i)) [0..<k] (take a array @ drop a array)
      = take a array @ take k ins @ drop (a + k) array"
      by (rule fold_store) (simp add: k_def)
    then show ?thesis using a_le by (simp add: k_def min_absorb2)
  qed
  have l3: "fold (\<lambda>i x. store x (i + k + a) (drop a array ! i)) [0..<length (drop a array)]
        (take a array @ ins @ drop (a + k) array)
      = take a array @ ins @ drop a array"
  proof -
    have "fold (\<lambda>i x. store x (i + length (take a array @ ins)) (drop a array ! i))
          [0..<length (drop a array)] ((take a array @ ins) @ drop (a + k) array)
      = (take a array @ ins) @ take (length (drop a array)) (drop a array)
          @ drop (a + k + length (drop a array)) array"
      by (rule fold_store) simp
    moreover have "length (take a array @ ins) = k + a" using a_le by (simp add: k_def min_absorb2)
    ultimately show ?thesis by (simp add: add.assoc)
  qed
  show ?thesis
    unfolding splice_c_def Let_def a_def[symmetric] k_def[symmetric] map_nth_drop
    using l2 l3 by simp
qed


lemma set_splice_c: "set (splice_c array ins at) = set array \<union> set ins"
proof -
  have "set (take n array) \<union> set (drop n array) = set array" for n
    by (metis append_take_drop_id set_append)
  then show ?thesis by (auto simp: splice_c_eq Let_def)
qed

lemma length_splice_c: "length (splice_c array ins at) = length array + length ins"
  by (simp add: splice_c_eq Let_def)

section \<open>What the steps leave alone\<close>

lemma frame_trigger [simp]:
  "models (trigger t ev c) = models c" "length_c (trigger t ev c) = length_c c"
  "comparator (trigger t ev c) = comparator c" "validate (trigger t ev c) = validate c"
  "heap (trigger t ev c) = heap c" "next_cid (trigger t ev c) = next_cid c"
  "byId (trigger t ev c) = byId c"
  by (simp_all add: trigger_def)

lemma frame_delete_key [simp]:
  "models (delete_key k c) = models c" "length_c (delete_key k c) = length_c c"
  "comparator (delete_key k c) = comparator c" "validate (delete_key k c) = validate c"
  "heap (delete_key k c) = heap c" "next_cid (delete_key k c) = next_cid c"
  "log (delete_key k c) = log c"
  by (simp_all add: delete_key_def)

lemma frame_put_key [simp]:
  "models (put_key k m c) = models c" "length_c (put_key k m c) = length_c c"
  "comparator (put_key k m c) = comparator c" "validate (put_key k m c) = validate c"
  "heap (put_key k m c) = heap c" "next_cid (put_key k m c) = next_cid c"
  "log (put_key k m c) = log c"
  by (simp_all add: put_key_def)

lemma frame_onModelEvent [simp]:
  "models (onModelEvent ev m c) = models c" "length_c (onModelEvent ev m c) = length_c c"
  "comparator (onModelEvent ev m c) = comparator c" "validate (onModelEvent ev m c) = validate c"
  "heap (onModelEvent ev m c) = heap c" "next_cid (onModelEvent ev m c) = next_cid c"
  by (simp_all add: onModelEvent_def Let_def split: event.splits)

lemma frame_onModelEvent_pow [simp]:
  "models ((onModelEvent ev m ^^ n) c) = models c"
  "length_c ((onModelEvent ev m ^^ n) c) = length_c c"
  "comparator ((onModelEvent ev m ^^ n) c) = comparator c"
  "validate ((onModelEvent ev m ^^ n) c) = validate c"
  "heap ((onModelEvent ev m ^^ n) c) = heap c"
  "next_cid ((onModelEvent ev m ^^ n) c) = next_cid c"
  by (induction n) simp_all

lemma frame_model_trigger [simp]:
  "models (model_trigger m ev c) = models c" "length_c (model_trigger m ev c) = length_c c"
  "comparator (model_trigger m ev c) = comparator c" "validate (model_trigger m ev c) = validate c"
  "heap (model_trigger m ev c) = heap c" "next_cid (model_trigger m ev c) = next_cid c"
  by (simp_all add: model_trigger_def Let_def)

lemma frame_model_set [simp]:
  "models (model_set m a opts c) = models c" "length_c (model_set m a opts c) = length_c c"
  "comparator (model_set m a opts c) = comparator c" "validate (model_set m a opts c) = validate c"
  "next_cid (model_set m a opts c) = next_cid c"
  by (simp_all add: model_set_def Let_def)

lemma frame_addReference [simp]:
  "models (addReference m c) = models c" "length_c (addReference m c) = length_c c"
  "comparator (addReference m c) = comparator c" "validate (addReference m c) = validate c"
  "next_cid (addReference m c) = next_cid c" "log (addReference m c) = log c"
  by (simp_all add: addReference_def Let_def)

lemma frame_removeReference [simp]:
  "models (removeReference m c) = models c" "length_c (removeReference m c) = length_c c"
  "comparator (removeReference m c) = comparator c" "validate (removeReference m c) = validate c"
  "next_cid (removeReference m c) = next_cid c" "log (removeReference m c) = log c"
  by (simp_all add: removeReference_def Let_def)

lemma frame_prepareModel [simp]:
  "models (snd (prepareModel x c)) = models c" "length_c (snd (prepareModel x c)) = length_c c"
  "comparator (snd (prepareModel x c)) = comparator c"
  "validate (snd (prepareModel x c)) = validate c"
  by (cases x; simp add: new_model_def Let_def split: option.splits)+

lemma frame_set_step [simp]:
  "models (snd (set_step opts sortable sa x lc)) = models (snd lc)"
  "length_c (snd (set_step opts sortable sa x lc)) = length_c (snd lc)"
  "comparator (snd (set_step opts sortable sa x lc)) = comparator (snd lc)"
  "validate (snd (set_step opts sortable sa x lc)) = validate (snd lc)"
  by (cases lc; simp add: set_step_def Let_def split: option.splits prod.splits;
      metis frame_prepareModel snd_conv)+

lemma frame_fold_set_step [simp]:
  "models (snd (fold (set_step opts sortable sa) xs lc)) = models (snd lc)"
  "length_c (snd (fold (set_step opts sortable sa) xs lc)) = length_c (snd lc)"
  "comparator (snd (fold (set_step opts sortable sa) xs lc)) = comparator (snd lc)"
  "validate (snd (fold (set_step opts sortable sa) xs lc)) = validate (snd lc)"
  by (induction xs arbitrary: lc) simp_all

lemma set_insort_by [simp]: "set (insort_by le x xs) = insert x (set xs)"
  by (induction xs) auto

lemma set_sort_by [simp]: "set (sort_by le xs) = set xs"
  by (induction xs) (simp_all add: sort_by_def)

lemma set_sorted_models [simp]: "set (sorted_models cmp c) = set (models c)"
  by (cases cmp) simp_all

lemma byId_onModelEvent_add [simp]:
  "byId (onModelEvent (EvAdd a i) m c) = byId c"
  "byId (onModelEvent (EvRemove a i) m c) = byId c"
  by (simp_all add: onModelEvent_def)

lemma byId_onModelEvent_pow [simp]:
  "byId ((onModelEvent (EvAdd a i) m ^^ n) c) = byId c"
  "byId ((onModelEvent (EvRemove a i) m ^^ n) c) = byId c"
  by (induction n) simp_all

lemma byId_model_trigger [simp]:
  "byId (model_trigger m (EvAdd a i) c) = byId c"
  "byId (model_trigger m (EvRemove a i) c) = byId c"
  by (simp_all add: model_trigger_def Let_def)

lemma frame_add_events [simp]:
  "models (snd (add_events ms at i opts c)) = models c"
  "length_c (snd (add_events ms at i opts c)) = length_c c"
  "byId (snd (add_events ms at i opts c)) = byId c"
  "heap (snd (add_events ms at i opts c)) = heap c"
  by (induction ms at i opts c rule: add_events.induct) (simp_all add: Let_def)

lemma frame_set_emit [simp]:
  "models (set_emit opts at l tr srt oc c) = models c"
  "length_c (set_emit opts at l tr srt oc c) = length_c c"
  by (simp_all add: set_emit_def Let_def split: prod.splits; metis frame_add_events snd_conv)+


lemma l_sort_set_step:
  "l_sort (fst (set_step opts sortable sa x lc)) \<Longrightarrow> sortable \<or> l_sort (fst lc)"
  by (cases lc) (auto simp: set_step_def Let_def split: option.splits prod.splits if_splits)

lemma l_sort_fold:
  "l_sort (fst (fold (set_step opts sortable sa) xs lc)) \<Longrightarrow> sortable \<or> l_sort (fst lc)"
proof (induction xs arbitrary: lc)
  case Nil
  then show ?case by simp
next
  case (Cons x xs)
  then have "sortable \<or> l_sort (fst (set_step opts sortable sa x lc))" by simp
  then show ?case using l_sort_set_step by blast
qed

lemma length_insort_by [simp]: "length (insort_by le x xs) = Suc (length xs)"
  by (induction xs) auto

lemma length_sort_by [simp]: "length (sort_by le xs) = length xs"
  by (induction xs) (simp_all add: sort_by_def)

lemma length_sorted_models [simp]: "length (sorted_models cmp c) = length (models c)"
  by (cases cmp) simp_all

lemma sort_c_configured:
  "configured (comparator c) \<Longrightarrow>
   \<exists>c'. sort_c opts c = Inr c' \<and> set (models c') = set (models c)
        \<and> length (models c') = length (models c) \<and> length_c c' = length_c c
        \<and> byId c' = byId c \<and> heap c' = heap c"
  by (cases "comparator c") (auto simp: sort_c_def Let_def)

section \<open>The log only grows\<close>

lemma appended_refl [simp]: "appended P c c"
  by (simp add: appended_def)

lemma appended_same_log: "log c' = log c \<Longrightarrow> appended P c c'"
  by (simp add: appended_def)

lemma appended_trans: "appended P a b \<Longrightarrow> appended P b c \<Longrightarrow> appended P a c"
  by (auto simp: appended_def)

lemma appended_mono: "appended P a b \<Longrightarrow> (\<And>e. P e \<Longrightarrow> Q e) \<Longrightarrow> appended Q a b"
  by (auto simp: appended_def list_all_iff)

lemma appended_new_entries: "appended P c c' \<Longrightarrow> list_all P (new_entries c c')"
  by (auto simp: appended_def new_entries_def)

lemma appended_log_length: "appended P c c' \<Longrightarrow> length (log c) \<le> length (log c')"
  by (auto simp: appended_def)

lemma appended_trigger: "P \<lparr>e_target = t, e_event = ev, e_byId = byId c\<rparr> \<Longrightarrow> appended P c (trigger t ev c)"
  by (simp add: appended_def trigger_def)

lemma appended_onModelEvent: "appended (\<lambda>e. e_event e = ev) c (onModelEvent ev m c)"
  by (simp add: appended_def onModelEvent_def trigger_def Let_def delete_key_def put_key_def
      split: event.splits)

lemma appended_onModelEvent_pow: "appended (\<lambda>e. e_event e = ev) c ((onModelEvent ev m ^^ n) c)"
proof (induction n)
  case 0
  then show ?case by simp
next
  case (Suc n)
  then show ?case using appended_onModelEvent appended_trans by fastforce
qed

lemma appended_model_trigger: "appended (\<lambda>e. e_event e = ev) c (model_trigger m ev c)"
  unfolding model_trigger_def Let_def
  by (rule appended_trans[OF appended_trigger appended_onModelEvent_pow]) simp

lemma appended_model_set: "appended (\<lambda>e. e_event e = EvChange m) c (model_set m a opts c)"
proof -
  have "appended (\<lambda>e. e_event e = EvChange m) (c\<lparr>heap := h\<rparr>) (model_trigger m (EvChange m) (c\<lparr>heap := h\<rparr>))" for h
    by (rule appended_model_trigger)
  then have "appended (\<lambda>e. e_event e = EvChange m) c (model_trigger m (EvChange m) (c\<lparr>heap := h\<rparr>))" for h
    by (simp add: appended_def)
  then show ?thesis by (simp add: model_set_def Let_def appended_same_log)
qed

lemma appended_prepareModel: "appended (\<lambda>e. is_invalid (e_event e)) c (snd (prepareModel x c))"
  by (cases x) (auto simp: new_model_def Let_def appended_def trigger_def split: option.splits)

lemma appended_set_step:
  "appended (\<lambda>e. is_invalid (e_event e) \<or> is_change (e_event e)) (snd lc)
     (snd (set_step opts sortable sa x lc))"
proof -
  obtain l c where lc: "lc = (l, c)" by (cases lc)
  have 1: "appended (\<lambda>e. is_invalid (e_event e) \<or> is_change (e_event e)) c (model_set m a opts c)" for m a
    by (rule appended_mono[OF appended_model_set]) simp
  have 2: "appended (\<lambda>e. is_invalid (e_event e) \<or> is_change (e_event e)) c (snd (prepareModel x c))"
    by (rule appended_mono[OF appended_prepareModel]) simp
  have 3: "appended P c (addReference m c1) = appended P c c1" for P m c1
    by (simp add: appended_def)
  show ?thesis
    using 1 2 by (auto simp: lc set_step_def Let_def 3 split: option.splits prod.splits)
qed

lemma appended_fold_set_step:
  "appended (\<lambda>e. is_invalid (e_event e) \<or> is_change (e_event e)) (snd lc)
     (snd (fold (set_step opts sortable sa) xs lc))"
proof (induction xs arbitrary: lc)
  case Nil
  then show ?case by simp
next
  case (Cons x xs)
  show ?case
    using appended_trans[OF appended_set_step Cons.IH] by simp
qed

lemma appended_add_events:
  "appended (\<lambda>e. is_add (e_event e)) c (snd (add_events ms at i opts c))"
proof (induction ms at i opts c rule: add_events.induct)
  case (1 at i opts c)
  then show ?case by simp
next
  case (2 m ms at i opts c)
  have "appended (\<lambda>e. is_add (e_event e)) c (model_trigger m (EvAdd m j) c)" for j
    by (rule appended_mono[OF appended_model_trigger]) simp
  then show ?case using 2 appended_trans by (fastforce simp: Let_def)
qed


section \<open>The index is purged before \<open>remove\<close> fires\<close>

lemma log_onModelEvent_pow:
  "\<exists>new. log ((onModelEvent (EvRemove a i) m ^^ n) c) = log c @ new
     \<and> (\<forall>e\<in>set new. e_event e = EvRemove a i \<and> e_byId e = byId c)"
proof (induction n)
  case 0
  then show ?case by simp
next
  case (Suc n)
  then obtain new where new: "log ((onModelEvent (EvRemove a i) m ^^ n) c) = log c @ new"
    "\<forall>e\<in>set new. e_event e = EvRemove a i \<and> e_byId e = byId c" by blast
  have "log ((onModelEvent (EvRemove a i) m ^^ Suc n) c)
      = log c @ (new @ [\<lparr>e_target = OnCollection, e_event = EvRemove a i, e_byId = byId c\<rparr>])"
    using new(1) by (simp add: onModelEvent_def trigger_def)
  then show ?case using new(2) by (intro exI[of _ "new @ [_]"]) auto
qed

lemma log_model_trigger_remove:
  "\<exists>new. log (model_trigger m (EvRemove a i) c) = log c @ new
     \<and> (\<forall>e\<in>set new. e_event e = EvRemove a i \<and> e_byId e = byId c)"
proof -
  let ?c1 = "trigger (OnModel m) (EvRemove a i) c"
  obtain new where new: "log ((onModelEvent (EvRemove a i) m ^^ m_listens (heap ?c1 m)) ?c1) = log ?c1 @ new"
    "\<forall>e\<in>set new. e_event e = EvRemove a i \<and> e_byId e = byId ?c1"
    using log_onModelEvent_pow by blast
  have "log (model_trigger m (EvRemove a i) c)
      = log c @ (\<lparr>e_target = OnModel m, e_event = EvRemove a i, e_byId = byId c\<rparr> # new)"
    using new(1) by (simp add: model_trigger_def Let_def trigger_def)
  then show ?thesis using new(2) by (intro exI[of _ "_ # new"]) auto
qed

lemma attributes_removeReference [simp]:
  "attributes (heap (removeReference m c) x) = attributes (heap c x)"
  by (simp add: removeReference_def Let_def)

lemma byId_removeReference_other:
  "byId c k = None \<Longrightarrow> byId (removeReference m c) k = None"
  by (simp add: removeReference_def Let_def delete_key_def)

lemma purged_heap_cong:
  "(\<And>m. attributes (heap c' m) = attributes (heap c m)) \<Longrightarrow> purged c' e = purged c e"
  by (simp add: purged_def listener_get_def Let_def split: event.splits)



lemma remove_found_purged:
  assumes "remove_found m opts c = (opts1, c')" and "byId c KUndefined = None"
  shows "(\<exists>new. log c' = log c @ new \<and> (\<forall>e\<in>set new. purged c e))
         \<and> (\<forall>m. attributes (heap c' m) = attributes (heap c m))
         \<and> byId c' KUndefined = None"
proof -
  define index where "index = indexOf (models c) m"
  define c1 where "c1 = c\<lparr>models := splice1 (models c) index, length_c := length_c c - 1\<rparr>"
  define c2 where "c2 = delete_key (KCid m) c1"
  define id where "id = modelId (attributes (heap c2 m))"
  define c3 where "c3 = (if not_null id then delete_key (key_of id) c2 else c2)"
  define o1 where "o1 = (if \<not> truthy (o_silent opts) then opts\<lparr>o_index := Some index\<rparr> else opts)"
  define c4 where "c4 = (if \<not> truthy (o_silent opts)
                     then model_trigger m (EvRemove m (o_index o1)) c3 else c3)"
  have c': "c' = removeReference m c4"
    using assms(1) unfolding remove_found_def Let_def index_def[symmetric] c1_def[symmetric]
      c2_def[symmetric] id_def[symmetric] c3_def[symmetric] o1_def[symmetric] c4_def[symmetric]
    by simp
  have h3: "heap c3 = heap c" "log c3 = log c"
    by (simp_all add: c3_def c2_def c1_def)
  have b3: "byId c3 (KCid m) = None" "not_null id \<Longrightarrow> byId c3 (key_of id) = None"
    "byId c3 KUndefined = None"
    using assms(2) by (simp_all add: c3_def c2_def c1_def delete_key_def)
  have id: "id = modelId (attributes (heap c m))"
    by (simp add: id_def c2_def c1_def)
  obtain new4 where new4: "log c4 = log c @ new4"
    "\<forall>e\<in>set new4. e_event e = EvRemove m (o_index o1) \<and> e_byId e = byId c3"
  proof (cases "truthy (o_silent opts)")
    case True
    then have "log c4 = log c @ []" by (simp add: c4_def h3)
    then show ?thesis using that by fastforce
  next
    case False
    then show ?thesis
      using log_model_trigger_remove[of m m "o_index o1" c3] that
      by (auto simp: c4_def h3)
  qed
  have p4: "\<forall>e\<in>set new4. purged c e"
  proof
    fix e assume "e \<in> set new4"
    with new4(2) have e: "e_event e = EvRemove m (o_index o1)" "e_byId e = byId c3" by auto
    show "purged c e"
      using b3 by (cases id) (simp_all add: purged_def e listener_get_def id[symmetric] orElse_def)
  qed
  have h4: "heap c4 = heap c" "byId c4 KUndefined = None"
    using b3(3) h3(1) by (simp_all add: c4_def)
  have "byId c' KUndefined = None"
    unfolding c' using h4(2) by (rule byId_removeReference_other)
  moreover have "attributes (heap c' x) = attributes (heap c x)" for x
    by (simp add: c' h4)
  moreover have "log c' = log c @ new4" using new4(1) by (simp add: c')
  ultimately show ?thesis using p4 by blast
qed

lemma removeModels_purged:
  assumes "removeModels xs opts removed c = (r, opts', c')" and "byId c KUndefined = None"
  shows "(\<exists>new. log c' = log c @ new \<and> (\<forall>e\<in>set new. purged c e))
         \<and> (\<forall>m. attributes (heap c' m) = attributes (heap c m))
         \<and> byId c' KUndefined = None"
  using assms
proof (induction xs arbitrary: opts removed c)
  case Nil
  then show ?case by simp
next
  case (Cons x xs)
  show ?case
  proof (cases "get_c c x")
    case None
    with Cons.prems have "removeModels xs opts removed c = (r, opts', c')" by simp
    from Cons.IH[OF this Cons.prems(2)] show ?thesis .
  next
    case (Some m)
    obtain o1 c1 where rf: "remove_found m opts c = (o1, c1)" by (cases "remove_found m opts c")
    have rec: "removeModels xs o1 (removed @ [m]) c1 = (r, opts', c')"
      using Cons.prems(1) Some rf by simp
    from remove_found_purged[OF rf Cons.prems(2)] obtain new1 where
      n1: "log c1 = log c @ new1" "\<forall>e\<in>set new1. purged c e"
      "\<forall>m. attributes (heap c1 m) = attributes (heap c m)" "byId c1 KUndefined = None"
      by blast
    from Cons.IH[OF rec n1(4)] obtain new where new: "log c' = log c1 @ new"
      "\<forall>e\<in>set new. purged c1 e" "\<forall>m. attributes (heap c' m) = attributes (heap c1 m)"
      "byId c' KUndefined = None" by blast
    have "\<forall>e\<in>set new. purged c e"
      using new(2) purged_heap_cong[of c1 c] n1(3) by simp
    then have "log c' = log c @ (new1 @ new) \<and> (\<forall>e\<in>set (new1 @ new). purged c e)"
      using new(1) n1 by auto
    then show ?thesis using new(3,4) n1(3) by metis
  qed
qed


lemma key_of_not_undefined [simp]:
  "not_null i \<Longrightarrow> key_of i \<noteq> KUndefined" "not_null i \<Longrightarrow> KUndefined \<noteq> key_of i"
  by (cases i; simp)+

lemma undef_onModelEvent:
  "byId c KUndefined = None \<Longrightarrow> byId (onModelEvent ev m c) KUndefined = None"
  by (simp add: onModelEvent_def Let_def delete_key_def put_key_def trigger_def split: event.splits)

lemma undef_onModelEvent_pow:
  "byId c KUndefined = None \<Longrightarrow> byId ((onModelEvent ev m ^^ n) c) KUndefined = None"
  by (induction n) (simp_all add: undef_onModelEvent)

lemma undef_model_trigger:
  "byId c KUndefined = None \<Longrightarrow> byId (model_trigger m ev c) KUndefined = None"
  by (simp add: model_trigger_def Let_def undef_onModelEvent_pow)

lemma undef_model_set:
  "byId c KUndefined = None \<Longrightarrow> byId (model_set m a opts c) KUndefined = None"
  by (simp add: model_set_def Let_def undef_model_trigger)

lemma byId_prepareModel [simp]: "byId (snd (prepareModel x c)) = byId c"
  by (cases x) (simp_all add: new_model_def Let_def split: option.splits)

lemma undef_addReference:
  "byId c KUndefined = None \<Longrightarrow> byId (addReference m c) KUndefined = None"
  by (simp add: addReference_def Let_def put_key_def)

lemma undef_set_step:
  "byId (snd lc) KUndefined = None \<Longrightarrow>
   byId (snd (set_step opts sortable sa x lc)) KUndefined = None"
proof -
  obtain l c where lc: "lc = (l, c)" by (cases lc)
  have "byId (snd (prepareModel x c)) KUndefined = byId c KUndefined" by simp
  then have "prepareModel x c = (r, c1) \<Longrightarrow> byId c1 KUndefined = byId c KUndefined" for r c1
    by simp
  then show "byId (snd lc) KUndefined = None \<Longrightarrow> ?thesis"
    by (auto simp: lc set_step_def Let_def undef_model_set undef_addReference
        split: option.splits prod.splits)
qed

lemma undef_fold_set_step:
  "byId (snd lc) KUndefined = None \<Longrightarrow>
   byId (snd (fold (set_step opts sortable sa) xs lc)) KUndefined = None"
  by (induction xs arbitrary: lc) (simp_all add: undef_set_step)


section \<open>The course of \<open>set\<close>\<close>

lemma purged_not_remove: "\<not> is_remove (e_event e) \<Longrightarrow> purged c e"
  by (cases "e_event e") (simp_all add: purged_def)

lemma frame_set_place [simp]:
  "log (fst (set_place opts sortable at l c)) = log c"
  "heap (fst (set_place opts sortable at l c)) = heap c"
  "byId (fst (set_place opts sortable at l c)) = byId c"
  "comparator (fst (set_place opts sortable at l c)) = comparator c"
  "next_cid (fst (set_place opts sortable at l c)) = next_cid c"
  by (simp_all add: set_place_def Let_def)

lemma sort_c_silent_cases:
  "(\<exists>c'. sort_c (no_options\<lparr>o_silent := Some True\<rparr>) c = Inr c' \<and> log c' = log c \<and> heap c' = heap c
       \<and> byId c' = byId c \<and> next_cid c' = next_cid c \<and> set (models c') = set (models c)
       \<and> length (models c') = length (models c) \<and> length_c c' = length_c c)
   \<or> sort_c (no_options\<lparr>o_silent := Some True\<rparr>) c = Inl (NoComparator, c)"
  by (cases "comparator c") (auto simp: sort_c_def Let_def truthy_def)

lemma heap_set_emit [simp]:
  "heap (set_emit opts at l tr srt oc c) = heap c"
  "byId (set_emit opts at l tr srt oc c) = byId c"
  by (simp_all add: set_emit_def Let_def split: prod.splits; metis frame_add_events snd_conv)+

lemma appended_set_emit:
  "appended (\<lambda>e. \<not> is_remove (e_event e)) c (set_emit opts at l tr srt oc c)"
proof -
  obtain o1 c1 where ae: "add_events (l_toAdd l) at 0 opts c = (o1, c1)"
    by (cases "add_events (l_toAdd l) at 0 opts c")
  have "appended (\<lambda>e. is_add (e_event e)) c (snd (add_events (l_toAdd l) at 0 opts c))"
    by (rule appended_add_events)
  then have 1: "appended (\<lambda>e. \<not> is_remove (e_event e)) c c1"
    using ae by (auto elim!: appended_mono) (case_tac "e_event e"; simp)
  have 2: "appended (\<lambda>e. \<not> is_remove (e_event e)) c1 (trigger OnCollection EvSort c1)"
    by (rule appended_trigger) simp
  have 3: "appended (\<lambda>e. \<not> is_remove (e_event e)) x (trigger OnCollection (EvUpdate a b d) x)" for x a b d
    by (rule appended_trigger) simp
  show ?thesis
    using 1 appended_trans[OF 1 2] appended_trans[OF 1 3] appended_trans[OF appended_trans[OF 1 2] 3]
    by (simp add: set_emit_def ae Let_def)
qed


lemma set_opts_simps [simp]:
  "o_remove (set_opts o0) = over (Some True) (o_remove o0)"
  "o_add (set_opts o0) = over (Some True) (o_add o0)"
  "o_merge (set_opts o0) = over (Some True) (o_merge o0)"
  "o_silent (set_opts o0) = o_silent o0"
  "o_at (set_opts o0) = o_at o0"
  "o_sort (set_opts o0) = o_sort o0"
  "o_index (set_opts o0) = o_index o0"
  by (simp_all add: set_opts_def js_extend_def no_options_def setOptions_def over_def
      split: option.splits)

lemma frame_set_scan [simp]:
  "models (snd (set_scan ms o0 c)) = models c"
  "length_c (snd (set_scan ms o0 c)) = length_c c"
  "comparator (snd (set_scan ms o0 c)) = comparator c"
  "validate (snd (set_scan ms o0 c)) = validate c"
  by (simp_all add: set_scan_def)

lemma l_sort_set_scan: "l_sort (fst (set_scan ms o0 c)) \<Longrightarrow> set_sortable o0 c"
  using l_sort_fold[of "set_opts o0" "set_sortable o0 c" "sortAttr_of (comparator c)" ms "(setloop0, c)"]
  by (simp add: set_scan_def setloop0_def)

lemma removeModels_nil_if:
  "(if xs \<noteq> [] then removeModels (map f xs) opts [] c else ([], opts, c))
     = removeModels (map f xs) opts [] c"
  by (cases xs) simp_all

lemma frame_remove_found:
  assumes "remove_found m opts c = (o1, c1)"
  shows "comparator c1 = comparator c" "validate c1 = validate c" "next_cid c1 = next_cid c"
    "o_silent o1 = o_silent opts"
  using assms by (auto simp: remove_found_def Let_def)

lemma frame_removeModels:
  assumes "removeModels xs opts removed c = (r, o1, c1)"
  shows "comparator c1 = comparator c" "validate c1 = validate c" "next_cid c1 = next_cid c"
    "o_silent o1 = o_silent opts"
  using assms
proof (induction xs arbitrary: opts removed c)
  case Nil
  { case 1 then show ?case by simp }
  { case 2 then show ?case by simp }
  { case 3 then show ?case by simp }
  { case 4 then show ?case by simp }
next
  case (Cons x xs)
  { case 1 then show ?case using Cons.IH(1) frame_remove_found(1)
      by (fastforce split: option.splits prod.splits) }
  { case 2 then show ?case using Cons.IH(2) frame_remove_found(2)
      by (fastforce split: option.splits prod.splits) }
  { case 3 then show ?case using Cons.IH(3) frame_remove_found(3)
      by (fastforce split: option.splits prod.splits) }
  { case 4 then show ?case using Cons.IH(4) frame_remove_found(4)
      by (fastforce split: option.splits prod.splits) }
qed

text \<open>The ways \<open>set\<close> ends, with the states it goes through.\<close>

lemma set_c_run:
  obtains
    (stale_throws) l c1 where
      "set_scan ms o0 c = (l, c1)" "truthy (o_remove (set_opts o0))"
      "stale c1 (l_modelMap l) = Inl TypeError" "set_c ms o0 c = Inl (TypeError, c1)"
  | (returns) l c1 toRemove removed o1 c2 c3 srt oc c4 where
      "set_scan ms o0 c = (l, c1)"
      "(if truthy (o_remove (set_opts o0)) then stale c1 (l_modelMap l) else Inr []) = Inr toRemove"
      "removeModels (map (\<lambda>m. Item (Ref m)) toRemove) (set_opts o0) [] c1 = (removed, o1, c2)"
      "set_place o1 (set_sortable o0 c) (set_at o0 c) l c2 = (c3, srt, oc)"
      "(if srt then sort_c (no_options\<lparr>o_silent := Some True\<rparr>) c3 else Inr c3) = Inr c4"
      "set_c ms o0 c = Inr (l_out l, set_emit o1 (set_at o0 c) l toRemove srt oc c4)"
proof -
  obtain l c1 where sc: "set_scan ms o0 c = (l, c1)" by (cases "set_scan ms o0 c")
  show thesis
  proof (cases "if truthy (o_remove (set_opts o0)) then stale c1 (l_modelMap l) else Inr []")
    case (Inl e)
    then have t: "truthy (o_remove (set_opts o0))" "stale c1 (l_modelMap l) = Inl e"
      by (auto split: if_splits)
    then have "e = TypeError" by (auto simp: stale_def split: if_splits)
    with t Inl show ?thesis
      using stale_throws[OF sc] by (simp add: set_c_def sc Let_def)
  next
    case (Inr toRemove)
    obtain removed o1 c2 where rm:
      "removeModels (map (\<lambda>m. Item (Ref m)) toRemove) (set_opts o0) [] c1 = (removed, o1, c2)"
      by (cases "removeModels (map (\<lambda>m. Item (Ref m)) toRemove) (set_opts o0) [] c1")
    obtain c3 srt oc where sp: "set_place o1 (set_sortable o0 c) (set_at o0 c) l c2 = (c3, srt, oc)"
      by (cases "set_place o1 (set_sortable o0 c) (set_at o0 c) l c2")
    have eq: "set_c ms o0 c =
        (case (if srt then sort_c (no_options\<lparr>o_silent := Some True\<rparr>) c3 else Inr c3) of
           Inl e \<Rightarrow> Inl e
         | Inr c4 \<Rightarrow> Inr (l_out l, set_emit o1 (set_at o0 c) l toRemove srt oc c4))"
      unfolding set_c_def Let_def removeModels_nil_if sc
      using Inr rm sp by simp
    show ?thesis
    proof (cases "if srt then sort_c (no_options\<lparr>o_silent := Some True\<rparr>) c3 else Inr c3")
      case (Inl e)
      then have s: "srt" "sort_c (no_options\<lparr>o_silent := Some True\<rparr>) c3 = Inl e"
        by (auto split: if_splits)
      have "srt \<Longrightarrow> set_sortable o0 c \<or> l_sort l"
        using sp by (auto simp: set_place_def Let_def split: if_splits)
      with s have "set_sortable o0 c"
        using l_sort_set_scan[of ms o0 c] sc by auto
      moreover have "comparator c3 = comparator c"
        using sp frame_set_place(4)[of o1 "set_sortable o0 c" "set_at o0 c" l c2]
          frame_removeModels(1)[OF rm] frame_set_scan(3)[of ms o0 c] sc by simp
      ultimately have "configured (comparator c3)" by (simp add: set_sortable_def)
      from sort_c_configured[OF this, of "no_options\<lparr>o_silent := Some True\<rparr>"] s
      show ?thesis by auto
    next
      case r: (Inr c4)
      with eq show ?thesis
        using returns[OF sc Inr rm sp r] by simp
    qed
  qed
qed




lemma set_c_keeps_members:
  assumes "o_remove o0 = Some False"
  shows "\<exists>out c'. set_c ms o0 c = Inr (out, c') \<and> set (models c) \<subseteq> set (models c')"
proof (cases rule: set_c_run[of ms o0 c])
  case (stale_throws l c1)
  then show ?thesis using assms by (simp add: truthy_def over_def)
next
  case (returns l c1 toRemove removed o1 c2 c3 srt oc c4)
  have nr: "\<not> truthy (o_remove (set_opts o0))"
    using assms by (simp add: truthy_def over_def)
  with returns(2) have "toRemove = []" by simp
  with returns(3) have c2: "c2 = c1" "o1 = set_opts o0" by simp_all
  have m1: "models c1 = models c"
    using frame_set_scan(1)[of ms o0 c] returns(1) by simp
  have c3: "set (models c) \<subseteq> set (models c3)"
    using returns(4) nr m1 unfolding c2
    by (auto simp: set_place_def Let_def set_splice_c split: if_splits)
  have "set (models c4) = set (models c3)"
    using returns(5) sort_c_silent_cases[of c3] by (auto split: if_splits)
  then show ?thesis using returns(6) c3 by simp
qed

lemma set_c_purged:
  assumes "byId c KUndefined = None"
  shows "appended (purged (state_of (set_c ms o0 c))) c (state_of (set_c ms o0 c))"
proof -
  have scan: "appended (\<lambda>e. \<not> is_remove (e_event e)) c (snd (set_scan ms o0 c))"
    unfolding set_scan_def
    using appended_fold_set_step[of "(setloop0, c)" "set_opts o0" "set_sortable o0 c"
        "sortAttr_of (comparator c)" ms]
    by (auto elim!: appended_mono) (case_tac "e_event e"; simp)+
  have u1: "byId (snd (set_scan ms o0 c)) KUndefined = None"
    unfolding set_scan_def using assms by (intro undef_fold_set_step) simp
  show ?thesis
  proof (cases rule: set_c_run[of ms o0 c])
    case (stale_throws l c1)
    then show ?thesis
      using scan by (auto simp: state_of_def elim!: appended_mono intro: purged_not_remove)
  next
    case (returns l c1 toRemove removed o1 c2 c3 srt oc c4)
    let ?c' = "set_emit o1 (set_at o0 c) l toRemove srt oc c4"
    have st: "state_of (set_c ms o0 c) = ?c'" using returns(6) by (simp add: state_of_def)
    have u: "byId c1 KUndefined = None" using u1 returns(1) by simp
    from removeModels_purged[OF returns(3) u] obtain new where new:
      "log c2 = log c1 @ new" "\<forall>e\<in>set new. purged c1 e"
      "\<forall>m. attributes (heap c2 m) = attributes (heap c1 m)" by blast
    have h3: "heap c3 = heap c2" "log c3 = log c2"
      using returns(4) frame_set_place(1,2)[of o1 "set_sortable o0 c" "set_at o0 c" l c2] by simp_all
    have h4: "heap c4 = heap c3" "log c4 = log c3"
      using returns(5) sort_c_silent_cases[of c3] by (auto split: if_splits)
    have at: "attributes (heap ?c' m) = attributes (heap c1 m)" for m
      using new(3) h3 h4 by simp
    have a1: "appended (purged ?c') c c1"
      using scan returns(1) by (auto elim!: appended_mono intro: purged_not_remove)
    have "\<forall>e\<in>set new. purged ?c' e"
      using new(2) purged_heap_cong[of ?c' c1] at by simp
    then have a2: "appended (purged ?c') c1 c4"
      using new(1) h3 h4 by (simp add: appended_def list_all_iff)
    have a3: "appended (purged ?c') c4 ?c'"
      by (rule appended_mono[OF appended_set_emit]) (rule purged_not_remove)
    show ?thesis
      unfolding st using appended_trans[OF appended_trans[OF a1 a2] a3] .
  qed
qed

lemma remove_c_purged:
  assumes "byId c KUndefined = None"
  shows "appended (purged (snd (remove_c xs opts c))) c (snd (remove_c xs opts c))"
proof -
  obtain r o1 c1 where rm: "removeModels xs (js_extend no_options opts) [] c = (r, o1, c1)"
    by (cases "removeModels xs (js_extend no_options opts) [] c")
  from removeModels_purged[OF rm assms] obtain new where new:
    "log c1 = log c @ new" "\<forall>e\<in>set new. purged c e"
    "\<forall>m. attributes (heap c1 m) = attributes (heap c m)" by blast
  let ?c' = "snd (remove_c xs opts c)"
  have c': "?c' = c1 \<or> ?c' = trigger OnCollection (EvUpdate [] r []) c1"
    by (simp add: remove_c_def rm)
  then have at: "attributes (heap ?c' m) = attributes (heap c m)" for m
    using new(3) by auto
  have "\<forall>e\<in>set new. purged ?c' e"
    using new(2) purged_heap_cong[of ?c' c] at by simp
  then have a1: "appended (purged ?c') c c1"
    using new(1) by (simp add: appended_def list_all_iff)
  have a2: "appended (purged ?c') c1 (trigger OnCollection (EvUpdate [] r []) c1)"
    by (rule appended_trigger) (simp add: purged_def)
  from c' show ?thesis
    using a1 appended_trans[OF a1 a2] by auto
qed


section \<open>\<open>sort\<close> needs a comparator\<close>

text \<open>
  C9. With no comparator configured, \<open>sort\<close> throws to its caller at once: the outcome is
  the error together with the collection exactly as it was, so neither \<open>models\<close> nor the
  log of events has changed.
\<close>

theorem sort_without_comparator_throws:
  "comparator c = None \<Longrightarrow> sort_c options c = Inl (NoComparator, c)"
  by (simp add: sort_c_def)

theorem sort_without_comparator_throws_witness:
  "comparator (empty_collection\<lparr>length_c := 2, models := [2, 1]\<rparr>) = None
   \<and> sort_c no_options (empty_collection\<lparr>length_c := 2, models := [2, 1]\<rparr>)
       = Inl (NoComparator, empty_collection\<lparr>length_c := 2, models := [2, 1]\<rparr>)"
proof -
  have h: "comparator (empty_collection\<lparr>length_c := 2, models := [2, 1]\<rparr>) = None"
    by (simp add: empty_collection_def)
  show ?thesis
    using h sort_without_comparator_throws [OF h, of no_options] by simp
qed

section \<open>\<open>add\<close> never removes\<close>

lemma add_options_forced:
  "o_add (js_extend (js_extend (no_options\<lparr>o_merge := Some False\<rparr>) options) addOptions) = Some True"
  "o_remove (js_extend (js_extend (no_options\<lparr>o_merge := Some False\<rparr>) options) addOptions) = Some False"
  by (simp_all add: js_extend_def addOptions_def no_options_def over_def)

text \<open>
  C10. Whatever options the caller gives, \<open>add\<close> is \<open>set\<close> under options whose \<open>add\<close>
  is true and whose \<open>remove\<close> is false; the call returns, and every model that was in
  \<open>models\<close> before it is in \<open>models\<close> after it.
\<close>

theorem add_never_removes:
  "add_c ms options c
     = set_c ms (js_extend (js_extend (no_options\<lparr>o_merge := Some False\<rparr>) options) addOptions) c
   \<and> o_add (js_extend (js_extend (no_options\<lparr>o_merge := Some False\<rparr>) options) addOptions) = Some True
   \<and> o_remove (js_extend (js_extend (no_options\<lparr>o_merge := Some False\<rparr>) options) addOptions) = Some False
   \<and> (\<exists>out c'. add_c ms options c = Inr (out, c') \<and> set (models c) \<subseteq> set (models c'))"
  using set_c_keeps_members [OF add_options_forced(2), of ms options c]
  by (simp add: add_c_def add_options_forced)

theorem add_never_removes_witness:
  "\<exists>out c'. add_c [raw_id 7] (no_options\<lparr>o_add := Some False, o_remove := Some True\<rparr>)
       (empty_collection\<lparr>length_c := 1, models := [1], byId := [KCid 1 \<mapsto> 1], next_cid := 2\<rparr>) = Inr (out, c')
     \<and> set (models (empty_collection\<lparr>length_c := 1, models := [1], byId := [KCid 1 \<mapsto> 1], next_cid := 2\<rparr>))
         \<subseteq> set (models c')"
  using add_never_removes [of "[raw_id 7]" "no_options\<lparr>o_add := Some False, o_remove := Some True\<rparr>"
      "empty_collection\<lparr>length_c := 1, models := [1], byId := [KCid 1 \<mapsto> 1], next_cid := 2\<rparr>"]
  by blast

section \<open>The events of \<open>set\<close>\<close>




lemma direct_append [simp]: "direct (xs @ ys) = direct xs @ direct ys"
  by (simp add: direct_def)

lemma direct_Nil [simp]: "direct [] = []"
  by (simp add: direct_def)







section \<open>The index under \<open>get\<close>\<close>

lemma key_of_inj [simp]: "(key_of a = key_of b) = (a = b)"
  by (cases a; cases b) simp_all

lemma key_of_not_cid [simp]: "key_of a \<noteq> KCid m" "KCid m \<noteq> key_of a"
  by (cases a; simp)+

lemma key_of_not_object [simp]: "key_of a \<noteq> KObject" "KObject \<noteq> key_of a"
  by (cases a; simp)+

lemma not_null_key: "\<not> not_null a \<Longrightarrow> key_of a = KUndefined \<or> key_of a = KNull"
  by (cases a) simp_all

lemma indexed_mem: "indexed M c \<Longrightarrow> byId c k = Some m \<Longrightarrow> m \<in> M"
  by (auto simp: indexed_def)

lemma indexed_key: "indexed M c \<Longrightarrow> byId c k = Some m \<Longrightarrow>
    k = KCid m \<or> (not_null (idOf c m) \<and> k = key_of (idOf c m))"
  by (auto simp: indexed_def)

lemma indexed_cid: "indexed M c \<Longrightarrow> m \<in> M \<Longrightarrow> byId c (KCid m) = Some m"
  by (auto simp: indexed_def)

lemma indexed_id: "indexed M c \<Longrightarrow> m \<in> M \<Longrightarrow> not_null (idOf c m) \<Longrightarrow>
    byId c (key_of (idOf c m)) = Some m"
  by (auto simp: indexed_def)

lemma indexed_special:
  assumes "indexed M c"
  shows "byId c KObject = None" "byId c KUndefined = None" "byId c KNull = None"
proof -
  have "byId c k = None" if "k = KObject \<or> k = KUndefined \<or> k = KNull" for k
  proof (cases "byId c k")
    case (Some m)
    from indexed_key[OF assms Some] that show ?thesis
      by (cases "idOf c m") auto
  qed simp
  then show "byId c KObject = None" "byId c KUndefined = None" "byId c KNull = None" by simp_all
qed

lemma indexed_null_key: "indexed M c \<Longrightarrow> \<not> not_null a \<Longrightarrow> byId c (key_of a) = None"
  using indexed_special not_null_key by metis

lemma get_c_indexed_mem:
  assumes "indexed M c" "get_c c x = Some m"
  shows "m \<in> M"
proof -
  have *: "byId c k = Some m \<Longrightarrow> m \<in> M" for k
    using indexed_mem[OF assms(1)] by blast
  with assms(2) show ?thesis
  proof (cases x)
    case (Item it)
    with assms(2) * show ?thesis
      by (cases it) (auto simp: orElse_def split: option.splits if_splits)
  qed (auto simp: orElse_def split: option.splits if_splits)
qed

lemma get_c_member:
  assumes "indexed M c" "m \<in> M"
  shows "get_c c (Item (Ref m)) = Some m"
proof (cases "not_null (idOf c m)")
  case True
  then show ?thesis
    using indexed_id[OF assms True] indexed_special(1)[OF assms(1)]
    by (simp add: orElse_def idOf_def)
next
  case False
  then show ?thesis
    using indexed_null_key[OF assms(1) False] indexed_cid[OF assms] indexed_special(1)[OF assms(1)]
    by (simp add: orElse_def idOf_def)
qed

text \<open>How \<open>get\<close> found a model for an item: by the id the item brings, or by its \<open>cid\<close>.\<close>

lemma get_c_item_found:
  assumes "indexed M c" "get_c c (Item x) = Some e"
  shows "(not_null (modelId (item_attrs c x)) \<and> idOf c e = modelId (item_attrs c x))
       \<or> (byId c (key_of (modelId (item_attrs c x))) = None
           \<and> (case x of Ref m \<Rightarrow> m = e | Raw a \<Rightarrow> a_cid a = Some e))"
proof -
  let ?i = "modelId (item_attrs c x)"
  note sp = indexed_special(1)[OF assms(1)]
  have cid: "n = e" if "byId c (KCid n) = Some e" for n
    using indexed_key[OF assms(1) that] by simp
  show ?thesis
  proof (cases "byId c (key_of ?i)")
    case None
    then show ?thesis
      using assms(2) sp cid
      by (cases x) (auto simp: orElse_def item_attrs_def split: option.splits)
  next
    case (Some m)
    then have "m = e" using assms(2) sp
      by (cases x) (auto simp: orElse_def item_attrs_def)
    with indexed_key[OF assms(1) Some] show ?thesis by auto
  qed
qed


section \<open>Merging keeps the index\<close>

lemma indexed_cong:
  "byId c' = byId c \<Longrightarrow> heap c' = heap c \<Longrightarrow> next_cid c' = next_cid c \<Longrightarrow>
   indexed M c' = indexed M c"
  by (simp add: indexed_def idOf_def)

lemma byId_onModelEvent_change:
  "byId (onModelEvent (EvChange x) m c)
     = moved (modelId (previous (heap c m))) (modelId (attributes (heap c m))) m (byId c)"
  by (simp add: onModelEvent_def moved_def Let_def delete_key_def put_key_def)

lemma moved_idem: "moved p i m (moved p i m B) = moved p i m B"
  by (auto simp: moved_def Let_def fun_upd_twist)

lemma byId_onModelEvent_change_pow:
  "byId ((onModelEvent (EvChange x) m ^^ Suc n) c)
     = moved (modelId (previous (heap c m))) (modelId (attributes (heap c m))) m (byId c)"
proof (induction n)
  case 0
  then show ?case by (simp add: byId_onModelEvent_change)
next
  case (Suc n)
  have "byId ((onModelEvent (EvChange x) m ^^ Suc (Suc n)) c)
      = byId (onModelEvent (EvChange x) m ((onModelEvent (EvChange x) m ^^ Suc n) c))" by simp
  also have "\<dots> = moved (modelId (previous (heap c m))) (modelId (attributes (heap c m))) m
        (byId ((onModelEvent (EvChange x) m ^^ Suc n) c))"
    unfolding byId_onModelEvent_change by simp
  finally show ?case using Suc by (simp only: moved_idem)
qed

lemma byId_model_trigger_change:
  "0 < m_listens (heap c m) \<Longrightarrow>
   byId (model_trigger m (EvChange x) c)
     = moved (modelId (previous (heap c m))) (modelId (attributes (heap c m))) m (byId c)"
proof -
  assume "0 < m_listens (heap c m)"
  then obtain n where n: "m_listens (heap c m) = Suc n" by (cases "m_listens (heap c m)") auto
  show ?thesis
    unfolding model_trigger_def Let_def
    using byId_onModelEvent_change_pow[where x=x and m=m and n=n
        and c="trigger (OnModel m) (EvChange x) c"] n
    by simp
qed

lemma byId_model_trigger_same_id:
  "modelId (previous (heap c m)) = modelId (attributes (heap c m)) \<Longrightarrow>
   byId (model_trigger m (EvChange x) c) = byId c"
proof -
  assume a: "modelId (previous (heap c m)) = modelId (attributes (heap c m))"
  have "byId ((onModelEvent (EvChange x) m ^^ n) c') = byId c'" if "heap c' = heap c" for n c'
  proof (induction n)
    case 0
    then show ?case by simp
  next
    case (Suc n)
    then show ?case using a that by (simp add: byId_onModelEvent_change moved_def)
  qed
  then show ?thesis by (simp add: model_trigger_def Let_def)
qed


lemma heap_model_set:
  "heap (model_set e new opts c)
     = (heap c)(e := (heap c e)\<lparr>previous := attributes (heap c e),
          attributes := merge_attrs (attributes (heap c e)) new,
          m_changed := changes (attributes (heap c e)) new\<rparr>)"
  by (simp add: model_set_def Let_def)

lemma modelId_merge_attrs:
  "modelId (merge_attrs old new) = (if a_id new = Undefined then modelId old else a_id new)"
  by (simp add: modelId_def merge_attrs_def)

lemma idOf_model_set:
  "idOf (model_set e new opts c) m
     = (if m = e \<and> a_id new \<noteq> Undefined then a_id new else idOf c m)"
  by (simp add: idOf_def heap_model_set modelId_merge_attrs)

lemma listens_model_set [simp]:
  "m_listens (heap (model_set e new opts c) m) = m_listens (heap c m)"
  by (simp add: heap_model_set)

lemma byId_model_set_same:
  assumes "a_id new = Undefined \<or> a_id new = idOf c e"
  shows "byId (model_set e new opts c) = byId c"
proof -
  let ?c1 = "c\<lparr>heap := (heap c)(e := (heap c e)\<lparr>previous := attributes (heap c e),
          attributes := merge_attrs (attributes (heap c e)) new,
          m_changed := changes (attributes (heap c e)) new\<rparr>)\<rparr>"
  have "modelId (previous (heap ?c1 e)) = modelId (attributes (heap ?c1 e))"
    using assms by (auto simp: merge_attrs_def idOf_def modelId_def)
  from byId_model_trigger_same_id[OF this, of e] show ?thesis
    by (simp add: model_set_def Let_def)
qed

lemma byId_model_set_moved:
  assumes "a_id new \<noteq> Undefined" "a_id new \<noteq> idOf c e" "\<not> truthy (o_silent opts)"
    "0 < m_listens (heap c e)"
  shows "byId (model_set e new opts c) = moved (idOf c e) (a_id new) e (byId c)"
proof -
  let ?c1 = "c\<lparr>heap := (heap c)(e := (heap c e)\<lparr>previous := attributes (heap c e),
          attributes := merge_attrs (attributes (heap c e)) new,
          m_changed := changes (attributes (heap c e)) new\<rparr>)\<rparr>"
  have ch: "changes (attributes (heap c e)) new \<noteq> []"
    using assms(1,2) by (simp add: changes_def idOf_def modelId_def)
  have l: "0 < m_listens (heap ?c1 e)" using assms(4) by simp
  have "byId (model_trigger e (EvChange e) ?c1)
      = moved (modelId (previous (heap ?c1 e))) (modelId (attributes (heap ?c1 e))) e (byId ?c1)"
    by (rule byId_model_trigger_change[OF l])
  then show ?thesis
    using ch assms(1,3) by (simp add: model_set_def Let_def modelId_merge_attrs idOf_def)
qed

lemma model_set_indexed:
  assumes ix: "indexed M c" and e: "e \<in> M"
    and ok: "a_id new = Undefined \<or> a_id new = idOf c e
             \<or> (\<not> truthy (o_silent opts) \<and> byId c (key_of (a_id new)) = None)"
  shows "indexed M (model_set e new opts c)"
proof (cases "a_id new = Undefined \<or> a_id new = idOf c e")
  case True
  have "idOf (model_set e new opts c) m = idOf c m" for m
    using True by (auto simp: idOf_model_set)
  then show ?thesis
    using ix byId_model_set_same[OF True, of opts]
    by (simp add: indexed_def)
next
  case False
  let ?c' = "model_set e new opts c"
  let ?old = "idOf c e" and ?nid = "a_id new"
  from False ok have ns: "\<not> truthy (o_silent opts)" and free: "byId c (key_of ?nid) = None"
    by auto
  have le: "0 < m_listens (heap c e)" using ix e by (simp add: indexed_def)
  have B': "byId ?c' = moved ?old ?nid e (byId c)"
    using byId_model_set_moved[of new c e opts] False ns le by simp
  have ne: "?old \<noteq> ?nid" using False by auto
  have id': "idOf ?c' m = (if m = e then ?nid else idOf c m)" for m
    using False by (simp add: idOf_model_set)
  have olde: "not_null ?old \<Longrightarrow> byId c (key_of ?old) = Some e"
    using indexed_id[OF ix e] by simp
  have F2: "byId ?c' (KCid m) = byId c (KCid m)" for m
    by (simp add: B' moved_def Let_def)
  have F3: "byId ?c' (key_of (idOf c m)) = Some m"
    if "m \<in> M" "m \<noteq> e" "not_null (idOf c m)" for m
  proof -
    have m: "byId c (key_of (idOf c m)) = Some m" using indexed_id[OF ix that(1,3)] .
    have "idOf c m \<noteq> ?old" using m olde that by auto
    moreover have "idOf c m \<noteq> ?nid" using m free by auto
    ultimately show ?thesis using m by (simp add: B' moved_def Let_def)
  qed
  have F4: "not_null ?nid \<Longrightarrow> byId ?c' (key_of ?nid) = Some e"
    using ne by (simp add: B' moved_def Let_def)
  have F5: "m \<in> M \<and> (k = KCid m \<or> (not_null (idOf ?c' m) \<and> k = key_of (idOf ?c' m)))"
    if "byId ?c' k = Some m" for k m
  proof (cases "not_null ?nid \<and> k = key_of ?nid")
    case True
    then have "m = e" using that ne by (simp add: B' moved_def Let_def)
    then show ?thesis using True e by (simp add: id')
  next
    case False
    then have b: "byId c k = Some m" and nk: "not_null ?old \<Longrightarrow> k \<noteq> key_of ?old"
      using that ne by (auto simp: B' moved_def Let_def split: if_splits)
    from indexed_mem[OF ix b] indexed_key[OF ix b] nk show ?thesis
      by (auto simp: id')
  qed
  have "\<forall>m\<in>M. byId ?c' (KCid m) = Some m
          \<and> (not_null (idOf ?c' m) \<longrightarrow> byId ?c' (key_of (idOf ?c' m)) = Some m)
          \<and> m < next_cid ?c' \<and> 0 < m_listens (heap ?c' m)"
    using ix F2 F3 F4 by (auto simp: indexed_def id')
  then show ?thesis using F5 unfolding indexed_def by blast
qed


section \<open>Adding keeps the index\<close>

lemma indexed_heap_other:
  assumes "indexed M c" "byId c' = byId c" "next_cid c \<le> next_cid c'"
    "\<And>m. m \<in> M \<Longrightarrow> attributes (heap c' m) = attributes (heap c m)
                   \<and> m_listens (heap c' m) = m_listens (heap c m)"
  shows "indexed M c'"
proof -
  have id: "m \<in> M \<Longrightarrow> idOf c' m = idOf c m" for m using assms(4) by (simp add: idOf_def)
  have "\<forall>m\<in>M. byId c' (KCid m) = Some m
          \<and> (not_null (idOf c' m) \<longrightarrow> byId c' (key_of (idOf c' m)) = Some m)
          \<and> m < next_cid c' \<and> 0 < m_listens (heap c' m)"
    using assms id by (fastforce simp: indexed_def)
  moreover have "m \<in> M \<and> (k = KCid m \<or> (not_null (idOf c' m) \<and> k = key_of (idOf c' m)))"
    if "byId c' k = Some m" for k m
  proof -
    from that assms(2) have b: "byId c k = Some m" by simp
    from indexed_mem[OF assms(1) b] indexed_key[OF assms(1) b] show ?thesis
      by (auto simp: id)
  qed
  ultimately show ?thesis unfolding indexed_def by blast
qed

lemma indexed_not_member: "indexed M c \<Longrightarrow> m \<notin> M \<Longrightarrow> byId c (KCid m) = None"
proof (cases "byId c (KCid m)")
  case (Some m')
  assume "indexed M c" "m \<notin> M"
  with indexed_mem[OF _ Some] indexed_key[OF _ Some] show ?thesis by auto
qed simp

lemma addReference_facts:
  "byId (addReference m c)
     = (if not_null (idOf c m) then (byId c)(KCid m \<mapsto> m, key_of (idOf c m) \<mapsto> m)
        else (byId c)(KCid m \<mapsto> m))"
  "heap (addReference m c) = (heap c)(m := (heap c m)\<lparr>m_listens := Suc (m_listens (heap c m))\<rparr>)"
  by (simp_all add: addReference_def Let_def put_key_def idOf_def)

lemma idOf_addReference [simp]: "idOf (addReference m c) x = idOf c x"
  by (simp add: idOf_def addReference_facts)

lemma addReference_indexed:
  assumes ix: "indexed M c" and nm: "m \<notin> M" and lt: "m < next_cid c"
    and free: "not_null (idOf c m) \<Longrightarrow> byId c (key_of (idOf c m)) = None"
  shows "indexed (insert m M) (addReference m c)"
proof -
  let ?c' = "addReference m c"
  have F1: "byId ?c' (KCid x) = Some x \<and> (not_null (idOf c x) \<longrightarrow> byId ?c' (key_of (idOf c x)) = Some x)
      \<and> x < next_cid ?c' \<and> 0 < m_listens (heap ?c' x)" if "x \<in> insert m M" for x
  proof (cases "x = m")
    case True
    then show ?thesis using lt by (simp add: addReference_facts)
  next
    case False
    with that have x: "x \<in> M" by simp
    have "not_null (idOf c x) \<Longrightarrow> not_null (idOf c m) \<Longrightarrow> idOf c x \<noteq> idOf c m"
      using indexed_id[OF ix x] free by auto
    then show ?thesis
      using False x ix by (auto simp: addReference_facts indexed_def)
  qed
  have F2: "x \<in> insert m M \<and> (k = KCid x \<or> (not_null (idOf c x) \<and> k = key_of (idOf c x)))"
    if "byId ?c' k = Some x" for k x
  proof (cases "k = KCid m \<or> (not_null (idOf c m) \<and> k = key_of (idOf c m))")
    case True
    then have "x = m" using that by (auto simp: addReference_facts split: if_splits)
    then show ?thesis using True by auto
  next
    case False
    then have b: "byId c k = Some x" using that by (auto simp: addReference_facts split: if_splits)
    from indexed_mem[OF ix b] indexed_key[OF ix b] show ?thesis by auto
  qed
  show ?thesis
    unfolding indexed_def using F1 F2 by (simp only: idOf_addReference) blast
qed


section \<open>The first loop of \<open>set\<close> keeps the index\<close>

lemma next_cid_set_step: "next_cid (snd lc) \<le> next_cid (snd (set_step opts sortable sa x lc))"
  by (cases lc; cases x)
     (auto simp: set_step_def Let_def new_model_def split: option.splits prod.splits)

lemma next_cid_fold_set_step:
  "next_cid (snd lc) \<le> next_cid (snd (fold (set_step opts sortable sa) xs lc))"
proof (induction xs arbitrary: lc)
  case Nil
  then show ?case by simp
next
  case (Cons x xs)
  show ?case using le_trans[OF next_cid_set_step Cons.IH] by simp
qed

lemma item_ok_mono: "item_ok opts c x \<Longrightarrow> next_cid c \<le> next_cid c' \<Longrightarrow> item_ok opts c' x"
  by (cases x) auto

lemma get_c_none_free:
  assumes "get_c c (Item x) = None"
  shows "byId c (key_of (modelId (item_attrs c x))) = None"
    and "x = Ref m \<Longrightarrow> byId c (KCid m) = None"
  using assms by (cases x; auto simp: orElse_def item_attrs_def split: option.splits)+

lemma set_step_existing:
  assumes si: "scan_inv M0 (l, c)"
    and ok: "item_ok opts c x \<or> byId c (key_of (modelId (item_attrs c x))) \<noteq> None"
    and g: "get_c c (Item x) = Some e"
  shows "scan_inv M0 (set_step opts sortable sa x (l, c))"
proof -
  let ?M = "M0 \<union> set (l_toAdd l)"
  from si have ix: "indexed ?M c" by (simp add: scan_inv_def)
  have e: "e \<in> ?M" by (rule get_c_indexed_mem[OF ix g])
  define c1 where "c1 = (if truthy (o_merge opts) \<and> x \<noteq> Ref e
      then model_set e (item_attrs c x) opts c else c)"
  have ix1: "indexed ?M c1"
  proof (cases "truthy (o_merge opts) \<and> x \<noteq> Ref e")
    case True
    have "a_id (item_attrs c x) = Undefined \<or> a_id (item_attrs c x) = idOf c e
             \<or> (\<not> truthy (o_silent opts) \<and> byId c (key_of (a_id (item_attrs c x))) = None)"
    proof (cases x)
      case (Ref m)
      with get_c_item_found[OF ix g] True show ?thesis by (auto simp: modelId_def)
    next
      case (Raw a)
      with get_c_item_found[OF ix g] True ok show ?thesis
        by (auto simp: modelId_def item_attrs_def)
    qed
    from model_set_indexed[OF ix e this] True show ?thesis by (simp add: c1_def)
  next
    case False
    then have "c1 = c" unfolding c1_def by (simp only: if_False)
    then show ?thesis using ix by simp
  qed
  define l' where "l' = fst (set_step opts sortable sa x (l, c))"
  have c1: "snd (set_step opts sortable sa x (l, c)) = c1"
    using g by (simp add: set_step_def Let_def c1_def split: prod.splits)
  have l': "l_toAdd l' = l_toAdd l"
      "l_set l' = (if e \<in> l_modelMap l then l_set l else l_set l @ [e])"
      "l_modelMap l' = (if e \<in> l_modelMap l then l_modelMap l else insert e (l_modelMap l))"
    using g by (simp_all add: l'_def set_step_def Let_def split: prod.splits)
  have st: "set_step opts sortable sa x (l, c) = (l', c1)"
    using c1 by (simp add: l'_def prod_eq_iff)
  show ?thesis
    unfolding st using si ix1 e l' by (auto simp: scan_inv_def)
qed

lemma scan_inv_push:
  assumes si: "scan_inv M0 (l, c)" and nm: "m \<notin> M0 \<union> set (l_toAdd l)"
   and ix3: "indexed (insert m (M0 \<union> set (l_toAdd l))) c2"
  shows "scan_inv M0 (l\<lparr>l_toAdd := l_toAdd l @ [m], l_modelMap := insert m (l_modelMap l),
             l_set := l_set l @ [m], l_out := l_out l @ [RModel m]\<rparr>, c2)"
proof -
  from si have a: "distinct (l_toAdd l)" "set (l_toAdd l) \<inter> M0 = {}"
    "l_modelMap l = set (l_set l)" "distinct (l_set l)"
    "set (l_toAdd l) \<subseteq> set (l_set l)" "set (l_set l) \<subseteq> M0 \<union> set (l_toAdd l)"
    by (simp_all add: scan_inv_def)
  have m: "m \<notin> set (l_set l)" "m \<notin> set (l_toAdd l)" "m \<notin> M0" using a(6) nm by auto
  have e: "M0 \<union> set (l_toAdd l @ [m]) = insert m (M0 \<union> set (l_toAdd l))" by auto
  show ?thesis
    unfolding scan_inv_def prod.case e
    using ix3 a m by (intro conjI) auto
qed


lemma set_step_add_ref:
  assumes "get_c c (Item (Ref m)) = None" and "truthy (o_add opts)"
    and pm: "prepareModel (Ref m) c = (Some m, c1)"
  shows "set_step opts sortable sa (Ref m) (l, c)
        = (l\<lparr>l_toAdd := l_toAdd l @ [m], l_modelMap := insert m (l_modelMap l),
             l_set := l_set l @ [m], l_out := l_out l @ [RModel m]\<rparr>, addReference m c1)"
  using assms(1,2) by (simp add: set_step_def pm del: prepareModel.simps)

lemma set_step_add_raw:
  assumes "get_c c (Item (Raw a)) = None" and "truthy (o_add opts)"
    and nmod: "new_model a c = (n, c1)" and "validationError (heap c1 n) = None"
  shows "set_step opts sortable sa (Raw a) (l, c)
          = (l\<lparr>l_toAdd := l_toAdd l @ [n], l_modelMap := insert n (l_modelMap l),
               l_set := l_set l @ [n], l_out := l_out l @ [RModel n]\<rparr>, addReference n c1)"
  using assms(1,2,4) by (simp add: set_step_def nmod)

lemma set_step_invalid:
  assumes "get_c c (Item (Raw a)) = None" and "truthy (o_add opts)"
    and nmod: "new_model a c = (n, c1)" and "validationError (heap c1 n) = Some err"
  shows "set_step opts sortable sa (Raw a) (l, c)
          = (l\<lparr>l_out := l_out l @ [RFalse]\<rparr>, trigger OnCollection (EvInvalid err) c1)"
  using assms(1,2,4) by (simp add: set_step_def nmod)

lemma indexed_lt: "indexed M c \<Longrightarrow> m \<in> M \<Longrightarrow> m < next_cid c"
  by (simp add: indexed_def)

lemma set_step_new:
  assumes si: "scan_inv M0 (l, c)" and ok: "item_ok opts c x"
    and g: "get_c c (Item x) = None"
  shows "scan_inv M0 (set_step opts sortable sa x (l, c))"
proof (cases "truthy (o_add opts)")
  case False
  then show ?thesis using si g by (simp add: set_step_def scan_inv_def)
next
  case add: True
  let ?M = "M0 \<union> set (l_toAdd l)"
  from si have ix: "indexed ?M c" by (simp add: scan_inv_def)
  show ?thesis
  proof (cases x)
    case (Ref m)
    define c1 where "c1 = snd (prepareModel (Ref m) c)"
    have pm: "prepareModel (Ref m) c = (Some m, c1)" by (simp add: c1_def Let_def)
    have nm: "m \<notin> ?M" using get_c_member[OF ix, of m] g Ref by auto
    have h1: "attributes (heap c1 y) = attributes (heap c y)"
      "m_listens (heap c1 y) = m_listens (heap c y)" for y
      by (simp_all add: c1_def Let_def)
    have b1: "byId c1 = byId c" "next_cid c1 = next_cid c" by (simp_all add: c1_def Let_def)
    have ix1: "indexed ?M c1"
      by (rule indexed_heap_other[OF ix]) (simp_all add: b1 h1)
    have id1: "idOf c1 m = modelId (item_attrs c x)" by (simp add: idOf_def h1 Ref item_attrs_def)
    have free: "not_null (idOf c1 m) \<Longrightarrow> byId c1 (key_of (idOf c1 m)) = None"
      using get_c_none_free(1)[OF g] by (simp add: id1 b1)
    have lt: "m < next_cid c1" using ok Ref by (simp add: b1)
    have ix2: "indexed (insert m ?M) (addReference m c1)"
      by (rule addReference_indexed[OF ix1 nm lt free])
    show ?thesis
      unfolding Ref set_step_add_ref[OF g[unfolded Ref] add pm]
      by (rule scan_inv_push[OF si nm ix2])
  next
    case (Raw a)
    define n where "n = next_cid c"
    define c1 where "c1 = snd (new_model a c)"
    have nmod: "new_model a c = (n, c1)" by (simp add: c1_def n_def new_model_def Let_def)
    have nm: "n \<notin> ?M" using indexed_lt[OF ix, of n] by (auto simp: n_def)
    have h1: "y \<noteq> n \<Longrightarrow> heap c1 y = heap c y" for y
      by (simp add: c1_def new_model_def Let_def n_def)
    have b1: "byId c1 = byId c" "next_cid c1 = Suc n" "attributes (heap c1 n) = a"
      "validationError (heap c1 n) = validate c a"
      by (simp_all add: c1_def new_model_def Let_def n_def)
    have ix1: "indexed ?M c1"
    proof (rule indexed_heap_other[OF ix])
      show "byId c1 = byId c" by (rule b1)
      show "next_cid c \<le> next_cid c1" by (simp add: b1 n_def)
      show "attributes (heap c1 m) = attributes (heap c m) \<and>
         m_listens (heap c1 m) = m_listens (heap c m)" if "m \<in> ?M" for m
      proof -
        from that nm have "m \<noteq> n" by auto
        then show ?thesis by (simp add: h1)
      qed
    qed
    show ?thesis
    proof (cases "validate c a")
      case None
      have v: "validationError (heap c1 n) = None" using None b1 by simp
      have id1: "idOf c1 n = modelId a" by (simp add: idOf_def b1)
      have free: "not_null (idOf c1 n) \<Longrightarrow> byId c1 (key_of (idOf c1 n)) = None"
        using get_c_none_free(1)[OF g] by (simp add: id1 b1 Raw item_attrs_def)
      have ix2: "indexed (insert n ?M) (addReference n c1)"
        by (rule addReference_indexed[OF ix1 nm _ free]) (simp add: b1)
      show ?thesis
        unfolding Raw set_step_add_raw[OF g[unfolded Raw] add nmod v]
        by (rule scan_inv_push[OF si nm ix2])
    next
      case (Some err)
      have v: "validationError (heap c1 n) = Some err" using Some b1 by simp
      have "indexed ?M (trigger OnCollection (EvInvalid err) c1)"
        using ix1 indexed_cong[of "trigger OnCollection (EvInvalid err) c1" c1] by simp
      then show ?thesis
        unfolding Raw set_step_invalid[OF g[unfolded Raw] add nmod v]
        using si by (simp add: scan_inv_def)
    qed
  qed
qed

lemma set_step_scan_inv:
  assumes "scan_inv M0 lc" "item_ok opts (snd lc) x"
  shows "scan_inv M0 (set_step opts sortable sa x lc)"
proof -
  obtain l c where lc: "lc = (l, c)" by (cases lc)
  show ?thesis
  proof (cases "get_c c (Item x)")
    case None
    from set_step_new[OF _ _ None] assms show ?thesis unfolding lc by simp
  next
    case (Some e)
    have "item_ok opts c x \<or> byId c (key_of (modelId (item_attrs c x))) \<noteq> None"
      using assms(2) lc by simp
    from set_step_existing[OF _ this Some] assms(1) show ?thesis unfolding lc by simp
  qed
qed

lemma fold_set_step_scan_inv:
  "scan_inv M0 lc \<Longrightarrow> list_all (item_ok opts (snd lc)) xs \<Longrightarrow>
   scan_inv M0 (fold (set_step opts sortable sa) xs lc)"
proof (induction xs arbitrary: lc)
  case Nil
  then show ?case by simp
next
  case (Cons x xs)
  have 1: "scan_inv M0 (set_step opts sortable sa x lc)"
    using Cons.prems by (intro set_step_scan_inv) simp_all
  have "list_all (item_ok opts (snd (set_step opts sortable sa x lc))) xs"
    using Cons.prems(2) item_ok_mono[OF _ next_cid_set_step]
    by (auto simp: list_all_iff)
  from Cons.IH[OF 1 this] show ?case by simp
qed


section \<open>Removing keeps the index\<close>

lemma indexOf_range: "m \<in> set xs \<Longrightarrow> 0 \<le> indexOf xs m \<and> indexOf xs m < int (length xs)"
  by (induction xs) (auto simp: Let_def)

lemma indexOf_absent: "m \<notin> set xs \<Longrightarrow> indexOf xs m = -1"
  by (induction xs) (auto simp: Let_def)

lemma splice1_Cons: "0 \<le> i \<Longrightarrow> splice1 (x # xs) (i + 1) = x # splice1 xs i"
  by (auto simp: splice1_def Let_def min_def nat_add_distrib)

lemma splice1_indexOf: "m \<in> set xs \<Longrightarrow> splice1 xs (indexOf xs m) = remove1 m xs"
proof (induction xs)
  case Nil
  then show ?case by simp
next
  case (Cons x xs)
  show ?case
  proof (cases "x = m")
    case True
    then show ?thesis by (simp add: splice1_def)
  next
    case False
    with Cons.prems have m: "m \<in> set xs" by simp
    from indexOf_range[OF m] have "0 \<le> indexOf xs m" by simp
    then show ?thesis
      using False Cons.IH[OF m] by (simp add: Let_def splice1_Cons)
  qed
qed

lemma remove_found_facts:
  assumes "remove_found m opts c = (o1, c')"
  shows "byId c' = (\<lambda>k. if k = KCid m \<or> (not_null (idOf c m) \<and> k = key_of (idOf c m))
                        then None else byId c k)"
    and "x \<noteq> m \<Longrightarrow> heap c' x = heap c x"
    and "attributes (heap c' x) = attributes (heap c x)"
    and "models c' = splice1 (models c) (indexOf (models c) m)"
    and "length_c c' = length_c c - 1"
    and "m_listens (heap c' m) = 0"
proof -
  define index where "index = indexOf (models c) m"
  define c1 where "c1 = c\<lparr>models := splice1 (models c) index, length_c := length_c c - 1\<rparr>"
  define c2 where "c2 = delete_key (KCid m) c1"
  define id where "id = modelId (attributes (heap c2 m))"
  define c3 where "c3 = (if not_null id then delete_key (key_of id) c2 else c2)"
  define o2 where "o2 = (if \<not> truthy (o_silent opts) then opts\<lparr>o_index := Some index\<rparr> else opts)"
  define c4 where "c4 = (if \<not> truthy (o_silent opts)
                     then model_trigger m (EvRemove m (o_index o2)) c3 else c3)"
  have c': "c' = removeReference m c4"
    using assms unfolding remove_found_def Let_def index_def[symmetric] c1_def[symmetric]
      c2_def[symmetric] id_def[symmetric] c3_def[symmetric] o2_def[symmetric] c4_def[symmetric]
    by simp
  have id: "id = idOf c m" by (simp add: id_def c2_def c1_def idOf_def)
  have h4: "heap c4 = heap c" by (simp add: c4_def c3_def c2_def c1_def)
  have b4: "byId c4 = byId c3" by (simp add: c4_def)
  have b3: "byId c3 = (\<lambda>k. if k = KCid m \<or> (not_null (idOf c m) \<and> k = key_of (idOf c m))
                        then None else byId c k)"
    by (auto simp: c3_def c2_def c1_def delete_key_def id)
  show "byId c' = (\<lambda>k. if k = KCid m \<or> (not_null (idOf c m) \<and> k = key_of (idOf c m))
                        then None else byId c k)"
    by (auto simp: c' removeReference_def Let_def delete_key_def b4 b3 h4 idOf_def)
  show "x \<noteq> m \<Longrightarrow> heap c' x = heap c x"
    by (simp add: c' removeReference_def Let_def h4)
  show "attributes (heap c' x) = attributes (heap c x)"
    by (simp add: c' h4)
  show "models c' = splice1 (models c) (indexOf (models c) m)"
    by (simp add: c' c4_def c3_def c2_def c1_def index_def)
  show "length_c c' = length_c c - 1"
    by (simp add: c' c4_def c3_def c2_def c1_def)
  show "m_listens (heap c' m) = 0"
    by (simp add: c' removeReference_def Let_def)
qed

lemma indexed_remove:
  assumes ix: "indexed M c" and m: "m \<in> M"
    and b: "byId c' = (\<lambda>k. if k = KCid m \<or> (not_null (idOf c m) \<and> k = key_of (idOf c m))
                        then None else byId c k)"
    and h: "\<And>x. x \<noteq> m \<Longrightarrow> heap c' x = heap c x" and n: "next_cid c' = next_cid c"
  shows "indexed (M - {m}) c'"
proof -
  have id: "x \<noteq> m \<Longrightarrow> idOf c' x = idOf c x" for x by (simp add: idOf_def h)
  have F1: "byId c' (KCid x) = Some x \<and> (not_null (idOf c' x) \<longrightarrow> byId c' (key_of (idOf c' x)) = Some x)
      \<and> x < next_cid c' \<and> 0 < m_listens (heap c' x)" if "x \<in> M - {m}" for x
  proof -
    from that have x: "x \<in> M" "x \<noteq> m" by auto
    have "not_null (idOf c x) \<Longrightarrow> not_null (idOf c m) \<Longrightarrow> idOf c x \<noteq> idOf c m"
      using indexed_id[OF ix x(1)] indexed_id[OF ix m] x(2) by auto
    then show ?thesis
      using x ix by (auto simp: b id h n indexed_def)
  qed
  have F2: "x \<in> M - {m} \<and> (k = KCid x \<or> (not_null (idOf c' x) \<and> k = key_of (idOf c' x)))"
    if "byId c' k = Some x" for k x
  proof -
    from that have bk: "byId c k = Some x"
      and nk: "k \<noteq> KCid m" "not_null (idOf c m) \<Longrightarrow> k \<noteq> key_of (idOf c m)"
      by (auto simp: b split: if_splits)
    from indexed_mem[OF ix bk] indexed_key[OF ix bk] nk have "x \<in> M" "x \<noteq> m" by auto
    with indexed_key[OF ix bk] show ?thesis by (auto simp: id)
  qed
  show ?thesis unfolding indexed_def using F1 F2 by blast
qed

lemma remove_found_inv:
  assumes ix: "indexed (set (models c) \<union> A) c" and d: "distinct (models c)"
    and disj: "A \<inter> set (models c) = {}" and m: "m \<in> set (models c)"
    and rf: "remove_found m opts c = (o1, c')"
  shows "models c' = remove1 m (models c)" "indexed (set (models c') \<union> A) c'"
    "length_c c' = length_c c - 1"
proof -
  show 1: "models c' = remove1 m (models c)"
    using remove_found_facts(4)[OF rf] splice1_indexOf[OF m] by simp
  have "indexed ((set (models c) \<union> A) - {m}) c'"
    by (rule indexed_remove[OF ix _ remove_found_facts(1)[OF rf] remove_found_facts(2)[OF rf]
          frame_remove_found(3)[OF rf]]) (use m in simp_all)
  moreover have "(set (models c) \<union> A) - {m} = set (models c') \<union> A"
    using d disj m by (auto simp: 1)
  ultimately show "indexed (set (models c') \<union> A) c'" by simp
  show "length_c c' = length_c c - 1" by (rule remove_found_facts(5)[OF rf])
qed


lemma removeModels_refs_inv:
  assumes "indexed (set (models c) \<union> A) c" "distinct (models c)" "A \<inter> set (models c) = {}"
    and "set ms \<subseteq> set (models c)" "distinct ms"
    and "removeModels (map (\<lambda>m. Item (Ref m)) ms) opts removed c = (r, o1, c')"
  shows "models c' = filter (\<lambda>x. x \<notin> set ms) (models c) \<and> indexed (set (models c') \<union> A) c'
       \<and> length_c c' = length_c c - int (length ms)"
  using assms
proof (induction ms arbitrary: opts removed c)
  case Nil
  then show ?case by simp
next
  case (Cons m ms)
  have m: "m \<in> set (models c)" using Cons.prems(4) by simp
  have g: "get_c c (Item (Ref m)) = Some m"
    by (rule get_c_member[OF Cons.prems(1)]) (use m in simp)
  obtain o2 c1 where rf: "remove_found m opts c = (o2, c1)" by (cases "remove_found m opts c")
  have rec: "removeModels (map (\<lambda>m. Item (Ref m)) ms) o2 (removed @ [m]) c1 = (r, o1, c')"
    using Cons.prems(6) g rf by simp
  note rfi = remove_found_inv[OF Cons.prems(1,2,3) m rf]
  have d1: "distinct (models c1)" using rfi(1) Cons.prems(2) by simp
  have a1: "A \<inter> set (models c1) = {}"
    using rfi(1) Cons.prems(3) set_remove1_subset[of m "models c"] by auto
  have s1: "set ms \<subseteq> set (models c1)" using rfi(1) Cons.prems(4,5,2) by auto
  have dm: "distinct ms" using Cons.prems(5) by simp
  from Cons.IH[OF rfi(2) d1 a1 s1 dm rec]
  have ih: "models c' = filter (\<lambda>x. x \<notin> set ms) (models c1)" "indexed (set (models c') \<union> A) c'"
    "length_c c' = length_c c1 - int (length ms)" by blast+
  have "filter (\<lambda>x. x \<notin> set ms) (remove1 m (models c)) = filter (\<lambda>x. x \<notin> set (m # ms)) (models c)"
    using Cons.prems(2) by (simp add: distinct_remove1_removeAll removeAll_filter_not_eq conj_commute eq_commute)
  then show ?case using ih rfi by simp
qed

lemma removeModels_inv:
  assumes "inv c" "removeModels xs opts removed c = (r, o1, c')"
  shows "inv c' \<and> set (models c') \<subseteq> set (models c) \<and> next_cid c' = next_cid c"
  using assms
proof (induction xs arbitrary: opts removed c)
  case Nil
  then show ?case by simp
next
  case (Cons x xs)
  show ?case
  proof (cases "get_c c x")
    case None
    then show ?thesis using Cons by simp
  next
    case (Some m)
    from Cons.prems(1) have ix: "indexed (set (models c) \<union> {}) c" and d: "distinct (models c)"
      and len: "length_c c = int (length (models c))" by (simp_all add: inv_def)
    have m: "m \<in> set (models c)" using get_c_indexed_mem[OF ix Some] by simp
    obtain o2 c1 where rf: "remove_found m opts c = (o2, c1)" by (cases "remove_found m opts c")
    have rec: "removeModels xs o2 (removed @ [m]) c1 = (r, o1, c')"
      using Cons.prems(2) Some rf by simp
    note rfi = remove_found_inv[OF ix d _ m rf]
    have "length (remove1 m (models c)) = length (models c) - 1"
      using m by (simp add: length_remove1)
    moreover obtain n where "length (models c) = Suc n"
      using m by (cases "models c") auto
    ultimately have "int (length (models c)) - 1 = int (length (remove1 m (models c)))"
      by simp
    then have "inv c1"
      using rfi d len by (simp add: inv_def)
    from Cons.IH[OF this rec] rfi(1) frame_remove_found(3)[OF rf]
      set_remove1_subset[of m "models c"] show ?thesis
      by auto
  qed
qed


section \<open>\<open>set\<close> keeps the index\<close>

lemma remove_found_opts:
  assumes "remove_found m opts c = (o1, c1)"
  shows "o_add o1 = o_add opts" "o_remove o1 = o_remove opts" "o_merge o1 = o_merge opts"
    "o_at o1 = o_at opts" "o_sort o1 = o_sort opts"
proof -
  have "o1 = (if \<not> truthy (o_silent opts) then opts\<lparr>o_index := Some (indexOf (models c) m)\<rparr> else opts)"
    using assms by (simp add: remove_found_def Let_def)
  then show "o_add o1 = o_add opts" "o_remove o1 = o_remove opts" "o_merge o1 = o_merge opts"
    "o_at o1 = o_at opts" "o_sort o1 = o_sort opts"
    by simp_all
qed

lemma removeModels_opts:
  assumes "removeModels xs opts removed c = (r, o1, c1)"
  shows "o_add o1 = o_add opts \<and> o_remove o1 = o_remove opts \<and> o_merge o1 = o_merge opts
    \<and> o_at o1 = o_at opts \<and> o_sort o1 = o_sort opts"
  using assms
proof (induction xs arbitrary: opts removed c)
  case Nil
  then show ?case by simp
next
  case (Cons x xs)
  show ?case
  proof (cases "get_c c x")
    case None
    then show ?thesis using Cons by simp
  next
    case (Some m)
    obtain o2 c2 where rf: "remove_found m opts c = (o2, c2)" by (cases "remove_found m opts c")
    with Cons.prems Some have "removeModels xs o2 (removed @ [m]) c2 = (r, o1, c1)" by simp
    from Cons.IH[OF this] remove_found_opts[OF rf] show ?thesis by simp
  qed
qed

lemma distinct_insort_by [simp]: "distinct (insort_by le x xs) = (x \<notin> set xs \<and> distinct xs)"
  by (induction xs) auto

lemma distinct_sort_by [simp]: "distinct (sort_by le xs) = distinct xs"
proof (induction xs)
  case Nil
  then show ?case by (simp add: sort_by_def)
next
  case (Cons x xs)
  have "sort_by le (x # xs) = insort_by le x (sort_by le xs)" by (simp add: sort_by_def)
  then show ?case using Cons by simp
qed

lemma distinct_sorted_models [simp]: "distinct (sorted_models cmp c) = distinct (models c)"
  by (cases cmp) simp_all

lemma inv_cong:
  assumes "inv c" "byId c' = byId c" "heap c' = heap c" "next_cid c' = next_cid c"
    "set (models c') = set (models c)" "distinct (models c')"
    "length_c c' = int (length (models c'))"
  shows "inv c'"
  using assms indexed_cong[OF assms(2,3,4), of "set (models c)"] by (simp add: inv_def)

lemma sort_c_inv:
  assumes "inv c" "(if srt then sort_c (no_options\<lparr>o_silent := Some True\<rparr>) c else Inr c) = Inr c'"
  shows "inv c'"
proof (cases srt)
  case True
  with assms(2) have s: "sort_c (no_options\<lparr>o_silent := Some True\<rparr>) c = Inr c'" by simp
  then obtain cmp where c': "c' = c\<lparr>models := sorted_models cmp c\<rparr>"
    by (auto simp: sort_c_def Let_def truthy_def split: option.splits if_splits)
  have "inv (c\<lparr>models := sorted_models cmp c\<rparr>)"
    by (rule inv_cong[OF assms(1)]) (use assms(1) in \<open>simp_all add: inv_def\<close>)
  then show ?thesis by (simp add: c')
next
  case False
  with assms show ?thesis by simp
qed

lemma next_cid_add_events [simp]: "next_cid (snd (add_events ms at i opts c)) = next_cid c"
  by (induction ms at i opts c rule: add_events.induct) (simp_all add: Let_def)

lemma next_cid_set_emit [simp]: "next_cid (set_emit opts at l tr srt oc c) = next_cid c"
proof -
  obtain o1 c1 where ae: "add_events (l_toAdd l) at 0 opts c = (o1, c1)"
    by (cases "add_events (l_toAdd l) at 0 opts c")
  have "next_cid c1 = next_cid c"
    using next_cid_add_events[of "l_toAdd l" at 0 opts c] ae by simp
  then show ?thesis by (simp add: set_emit_def ae Let_def)
qed

lemma set_emit_inv: "inv c \<Longrightarrow> inv (set_emit opts at l tr srt oc c)"
  by (rule inv_cong) (simp_all add: inv_def)


lemma distinct_splice:
  "distinct xs \<Longrightarrow> distinct ys \<Longrightarrow> set xs \<inter> set ys = {} \<Longrightarrow> distinct (splice_c xs ys at)"
proof -
  assume a: "distinct xs" "distinct ys" "set xs \<inter> set ys = {}"
  define n where "n = nat (min (max at 0) (int (length xs)))"
  have "set (take n xs) \<inter> set (drop n xs) = {}"
    using a(1) by (metis append_take_drop_id distinct_append)
  moreover have "set (take n xs) \<subseteq> set xs" "set (drop n xs) \<subseteq> set xs"
    by (auto dest: in_set_takeD in_set_dropD)
  ultimately show ?thesis
    using a by (auto simp: splice_c_eq Let_def n_def[symmetric])
qed

lemma splice_c_nil [simp]: "splice_c [] ys at = ys"
  by (simp add: splice_c_eq)

lemma set_place_inv:
  assumes ix: "indexed (set (models c2) \<union> set (l_toAdd l)) c2"
    and d: "distinct (models c2)" "distinct (l_toAdd l)" "distinct (l_set l)"
    and disj: "set (l_toAdd l) \<inter> set (models c2) = {}"
    and len: "length_c c2 = int (length (models c2))"
    and rep: "truthy (o_remove o1) \<Longrightarrow> set (l_set l) = set (models c2) \<union> set (l_toAdd l)"
    and sp: "set_place o1 sortable at l c2 = (c3, srt, oc)"
  shows "inv c3"
proof -
  have cong: "indexed M c3 = indexed M c2" for M
    using sp frame_set_place(2,3,5)[of o1 sortable at l c2]
    by (intro indexed_cong) simp_all
  let ?replace = "\<not> sortable \<and> truthy (o_add o1) \<and> truthy (o_remove o1)"
  consider (a) "l_set l \<noteq> []" ?replace | (b) "\<not> (l_set l \<noteq> [] \<and> ?replace)" "l_toAdd l \<noteq> []"
    | (c) "\<not> (l_set l \<noteq> [] \<and> ?replace)" "l_toAdd l = []" by blast
  then show ?thesis
  proof cases
    case a
    then have m3: "models c3 = l_set l" "length_c c3 = int (length (l_set l))"
      using sp by (auto simp: set_place_def Let_def)
    show ?thesis
      unfolding inv_def m3 cong using ix d rep a by simp
  next
    case b
    then have m3: "models c3 = splice_c (models c2) (l_toAdd l) (case at of None \<Rightarrow> length_c c2 | Some a \<Rightarrow> a)"
      "length_c c3 = int (length (models c3))"
      using sp by (auto simp: set_place_def Let_def)
    have "distinct (models c3)"
      unfolding m3(1) using d disj by (intro distinct_splice) auto
    then show ?thesis
      unfolding inv_def cong using ix m3 by (simp add: set_splice_c)
  next
    case c
    then have "models c3 = models c2" "length_c c3 = length_c c2"
      using sp by (auto simp: set_place_def Let_def)
    then show ?thesis
      unfolding inv_def cong using ix d len c(2) by simp
  qed
qed

lemma scan_inv_init: "inv c \<Longrightarrow> scan_inv (set (models c)) (setloop0, c)"
  by (simp add: scan_inv_def inv_def setloop0_def)

lemma set_scan_inv:
  assumes "inv c" "list_all (item_ok (set_opts o0) c) ms"
  shows "scan_inv (set (models c)) (set_scan ms o0 c)"
  unfolding set_scan_def
  by (rule fold_set_step_scan_inv[OF scan_inv_init[OF assms(1)]]) (use assms(2) in simp)

lemma stale_inv:
  "length_c c = int (length (models c)) \<Longrightarrow> stale c mm = Inr (filter (\<lambda>m. m \<notin> mm) (models c))"
  by (simp add: stale_def)


text \<open>The states of a \<open>set\<close> call on a consistent collection.\<close>

lemma set_c_inv_run:
  assumes iv: "inv c" and sc: "scan_inv (set (models c)) (set_scan ms o0 c)"
  obtains l c1 toRemove removed o1 c2 c3 srt oc c4 where
      "set_scan ms o0 c = (l, c1)" "scan_inv (set (models c)) (l, c1)"
      "toRemove = (if truthy (o_remove (set_opts o0))
                   then filter (\<lambda>m. m \<notin> set (l_set l)) (models c) else [])"
      "removeModels (map (\<lambda>m. Item (Ref m)) toRemove) (set_opts o0) [] c1 = (removed, o1, c2)"
      "models c2 = filter (\<lambda>x. x \<notin> set toRemove) (models c)"
      "set_place o1 (set_sortable o0 c) (set_at o0 c) l c2 = (c3, srt, oc)" "inv c3"
      "(if srt then sort_c (no_options\<lparr>o_silent := Some True\<rparr>) c3 else Inr c3) = Inr c4" "inv c4"
      "set_c ms o0 c = Inr (l_out l, set_emit o1 (set_at o0 c) l toRemove srt oc c4)"
      "inv (set_emit o1 (set_at o0 c) l toRemove srt oc c4)"
proof (cases rule: set_c_run[of ms o0 c])
  case (stale_throws l c1)
  have "models c1 = models c" "length_c c1 = length_c c"
    using frame_set_scan(1,2)[of ms o0 c] stale_throws(1) by simp_all
  with stale_throws(3) iv show ?thesis by (simp add: stale_def inv_def)
next
  case (returns l c1 toRemove removed o1 c2 c3 srt oc c4)
  have m1: "models c1 = models c" "length_c c1 = length_c c"
    using frame_set_scan(1,2)[of ms o0 c] returns(1) by simp_all
  have si: "scan_inv (set (models c)) (l, c1)"
    using sc returns(1) by simp
  then have ix1: "indexed (set (models c1) \<union> set (l_toAdd l)) c1"
    and sl: "distinct (l_toAdd l)" "set (l_toAdd l) \<inter> set (models c) = {}"
      "l_modelMap l = set (l_set l)" "distinct (l_set l)"
      "set (l_toAdd l) \<subseteq> set (l_set l)" "set (l_set l) \<subseteq> set (models c) \<union> set (l_toAdd l)"
    by (simp_all add: scan_inv_def m1)
  from iv have d: "distinct (models c)" and len: "length_c c = int (length (models c))"
    by (simp_all add: inv_def)
  have tr: "toRemove = (if truthy (o_remove (set_opts o0))
                   then filter (\<lambda>m. m \<notin> set (l_set l)) (models c) else [])"
    using returns(2) stale_inv[of c1 "l_modelMap l"] len m1 sl(3)
    by (auto split: if_splits)
  have trs: "set toRemove \<subseteq> set (models c1)" "distinct toRemove"
    using d by (auto simp: tr m1)
  from removeModels_refs_inv[OF ix1 _ _ trs returns(3)] d sl(2)
  have c2: "models c2 = filter (\<lambda>x. x \<notin> set toRemove) (models c)"
    "indexed (set (models c2) \<union> set (l_toAdd l)) c2"
    "length_c c2 = length_c c - int (length toRemove)"
    by (auto simp: m1 Int_commute)
  have "length (filter (\<lambda>x. x \<notin> set toRemove) (models c)) + length toRemove = length (models c)"
  proof (cases "truthy (o_remove (set_opts o0))")
    case True
    then have "filter (\<lambda>x. x \<notin> set toRemove) (models c) = filter (\<lambda>m. \<not> m \<notin> set (l_set l)) (models c)"
      by (auto simp: tr intro: filter_cong)
    then show ?thesis
      using sum_length_filter_compl[of "\<lambda>m. m \<notin> set (l_set l)" "models c"] True
      by (simp add: tr)
  next
    case False
    then show ?thesis by (simp add: tr)
  qed
  then have len2: "length_c c2 = int (length (models c2))"
    using c2(1,3) len by simp
  have d2: "distinct (models c2)" using d c2(1) by simp
  have disj2: "set (l_toAdd l) \<inter> set (models c2) = {}" using sl(2) c2(1) by auto
  have rep: "set (l_set l) = set (models c2) \<union> set (l_toAdd l)" if "truthy (o_remove o1)"
  proof -
    from that removeModels_opts[OF returns(3)] have "truthy (o_remove (set_opts o0))" by simp
    then have "set (models c2) = set (models c) \<inter> set (l_set l)"
      by (auto simp: c2(1) tr)
    then show ?thesis using sl(5,6) by auto
  qed
  have i3: "inv c3"
    by (rule set_place_inv[OF c2(2) d2 sl(1) sl(4) disj2 len2 rep returns(4)])
  have i4: "inv c4" by (rule sort_c_inv[OF i3 returns(5)])
  show ?thesis
    by (rule that[OF returns(1) si tr returns(3) c2(1) returns(4) i3 returns(5) i4 returns(6)
          set_emit_inv[OF i4]])
qed

lemma set_c_inv:
  assumes "inv c" "list_all (item_ok (set_opts o0) c) ms"
  shows "\<exists>out c'. set_c ms o0 c = Inr (out, c') \<and> inv c'"
  by (rule set_c_inv_run[OF assms(1) set_scan_inv[OF assms]]) blast


section \<open>Every public call keeps the index\<close>

lemma inv_trigger [simp]: "inv (trigger t ev c) = inv c"
  by (simp add: inv_def indexed_cong[of "trigger t ev c" c])

lemma remove_c_inv: "inv c \<Longrightarrow> inv (snd (remove_c xs opts c))"
proof -
  assume iv: "inv c"
  obtain r o1 c1 where rm: "removeModels xs (js_extend no_options opts) [] c = (r, o1, c1)"
    by (cases "removeModels xs (js_extend no_options opts) [] c")
  from removeModels_inv[OF iv rm] show ?thesis
    by (simp add: remove_c_def rm)
qed

lemma next_cid_remove_c: "inv c \<Longrightarrow> next_cid (snd (remove_c xs opts c)) = next_cid c"
proof -
  assume iv: "inv c"
  obtain r o1 c1 where rm: "removeModels xs (js_extend no_options opts) [] c = (r, o1, c1)"
    by (cases "removeModels xs (js_extend no_options opts) [] c")
  from removeModels_inv[OF iv rm] show ?thesis
    by (simp add: remove_c_def rm)
qed

lemma add_c_inv:
  assumes "inv c" "list_all (item_ok (set_opts (add_opts options)) c) ms"
  shows "\<exists>out c'. add_c ms options c = Inr (out, c') \<and> inv c'"
  using set_c_inv[OF assms] by (simp add: add_c_def add_opts_def)

lemma next_cid_fold_removeReference [simp]:
  "next_cid (fold removeReference ms c) = next_cid c"
  by (induction ms arbitrary: c) simp_all

lemma inv_reset_state: "inv (reset_state c)"
  by (simp add: inv_def reset_state_def indexed_def)

lemma reset_c_inv:
  assumes "list_all (item_ok (set_opts (reset_opts options)) c) ms"
  shows "\<exists>out c'. reset_c ms options c = Inr (out, c') \<and> inv c'"
proof -
  let ?c2 = "reset_state (fold removeReference (models c) c)"
  have n: "next_cid ?c2 = next_cid c" by (simp add: reset_state_def)
  have ok: "list_all (item_ok (set_opts (reset_opts options)) ?c2) ms"
    using assms item_ok_mono[of _ c _ ?c2] n by (auto simp: list_all_iff)
  from set_c_inv[OF inv_reset_state ok] obtain out c3 where
    "set_c ms (reset_opts options) ?c2 = Inr (out, c3)" "inv c3" by blast
  then show ?thesis
    by (simp add: reset_c_def Let_def add_c_def reset_opts_def add_opts_def)
qed

lemma run_call_inv: "inv c \<Longrightarrow> call_ok c k \<Longrightarrow> inv (run_call k c)"
proof (cases k)
  case (Add ms options)
  assume "inv c" "call_ok c k"
  with add_c_inv[of c options ms] Add show ?thesis by (auto simp: state_of_def)
next
  case (Remove xs options)
  assume "inv c"
  with remove_c_inv Remove show ?thesis by simp
next
  case (Set ms options)
  assume "inv c" "call_ok c k"
  with set_c_inv[of c options ms] Set show ?thesis by (auto simp: state_of_def)
next
  case (Reset ms options)
  assume "call_ok c k"
  with reset_c_inv[of options c ms] Reset show ?thesis by (auto simp: state_of_def)
qed

lemma run_inv: "inv c \<Longrightarrow> calls_ok c ks \<Longrightarrow> inv (run ks c)"
  by (induction ks arbitrary: c) (simp_all add: run_call_inv)

lemma calls_ok_take: "calls_ok c ks \<Longrightarrow> calls_ok c (take n ks)"
proof (induction ks arbitrary: c n)
  case Nil
  then show ?case by simp
next
  case (Cons k ks)
  then show ?case by (cases n) simp_all
qed

lemma inv_index_consistent: "inv c \<Longrightarrow> index_consistent c"
  by (auto simp: inv_def index_consistent_def indexed_def)


section \<open>The order that \<open>set\<close> leaves\<close>


lemma returned_Inr [simp]: "returned (Inr v)" "\<not> returned (Inl e)"
  by (simp_all add: returned_def)


section \<open>Evaluating the samples\<close>

lemmas sample_defs = two_models_def empty_collection_def sample_model_def blank_model_def
  blank_attrs_def raw_id_def

lemmas run_defs = new_entries_def remove_c_def remove_found_def Let_def js_extend_def no_options_def
  over_def orElse_def truthy_def modelId_def delete_key_def put_key_def model_trigger_def trigger_def
  onModelEvent_def removeReference_def addReference_def splice1_def

lemmas set_defs = set_c_def set_scan_def set_step_def set_opts_def set_at_def set_sortable_def
  setOptions_def setloop0_def resolve_at_def sortAttr_of_def item_attrs_def stale_def set_place_def
  set_emit_def prepareModel.simps new_model_def model_set_def merge_attrs_def changes_def
  hasChanged_def state_of_def splice_c_eq

lemmas call_defs = add_c_def addOptions_def reset_c_def reset_state_def add_opts_def reset_opts_def

lemma inv_two_models: "inv two_models"
  by (auto simp: inv_def indexed_def idOf_def modelId_def sample_defs split: if_splits)

lemma attributes_removeModels:
  "removeModels xs opts removed c = (r, o1, c') \<Longrightarrow> attributes (heap c' m) = attributes (heap c m)"
proof (induction xs arbitrary: opts removed c)
  case Nil
  then show ?case by simp
next
  case (Cons x xs)
  show ?case
  proof (cases "get_c c x")
    case None
    then show ?thesis using Cons by simp
  next
    case (Some y)
    obtain o2 c2 where rf: "remove_found y opts c = (o2, c2)" by (cases "remove_found y opts c")
    with Cons.prems Some have "removeModels xs o2 (removed @ [y]) c2 = (r, o1, c')" by simp
    from Cons.IH[OF this] remove_found_facts(3)[OF rf] show ?thesis by simp
  qed
qed

lemma next_cid_model_set_step:
  "get_c c (Item x) = Some e \<Longrightarrow> next_cid (snd (set_step opts sortable sa x (l, c))) = next_cid c"
  by (simp add: set_step_def Let_def split: prod.splits)

lemma set_step_found:
  assumes "get_c c (Item x) = Some e"
  shows "l_toAdd (fst (set_step opts sortable sa x (l, c))) = l_toAdd l"
    "l_set (fst (set_step opts sortable sa x (l, c))) = (if e \<in> l_modelMap l then l_set l else l_set l @ [e])"
    "l_out (fst (set_step opts sortable sa x (l, c))) = l_out l @ [RModel e]"
    "snd (set_step opts sortable sa x (l, c))
       = (if truthy (o_merge opts) \<and> x \<noteq> Ref e then model_set e (item_attrs c x) opts c else c)"
  using assms by (simp_all add: set_step_def Let_def split: prod.splits)

lemma get_c_raw_by_id:
  assumes "inv c" "e \<in> set (models c)" "not_null (modelId a)" "idOf c e = modelId a"
  shows "get_c c (Item (Raw a)) = Some e" "byId c (key_of (modelId a)) = Some e"
proof -
  from assms(1) have ix: "indexed (set (models c)) c" by (simp add: inv_def)
  show b: "byId c (key_of (modelId a)) = Some e"
    using indexed_id[OF ix assms(2)] assms(3,4) by simp
  show "get_c c (Item (Raw a)) = Some e"
    using b indexed_special(1)[OF ix] by (simp add: orElse_def)
qed


lemma set_place_no_add:
  assumes "l_toAdd l = []" "set_place o1 s at l c2 = (c3, srt, oc)"
  shows "models c3 = l_set l \<or> models c3 = models c2"
proof (cases "l_set l \<noteq> [] \<and> \<not> s \<and> truthy (o_add o1) \<and> truthy (o_remove o1)")
  case True
  then have "c3 = c2\<lparr>models := l_set l, length_c := int (length (l_set l))\<rparr>"
    using assms(2) by (simp add: set_place_def Let_def)
  then show ?thesis by simp
next
  case False
  then have "c3 = c2" using assms by (auto simp: set_place_def Let_def)
  then show ?thesis by simp
qed


lemma sort_step_frame:
  assumes "(if srt then sort_c (no_options\<lparr>o_silent := Some True\<rparr>) c3 else Inr c3) = Inr c4"
  shows "heap c4 = heap c3" "next_cid c4 = next_cid c3" "set (models c4) = set (models c3)"
    "byId c4 = byId c3" "log c4 = log c3" "length_c c4 = length_c c3"
    "length (models c4) = length (models c3)" "\<not> srt \<Longrightarrow> c4 = c3"
proof -
  have "c4 = c3 \<or> (\<exists>cmp. c4 = c3\<lparr>models := sorted_models cmp c3\<rparr>)"
  proof (cases srt)
    case True
    with assms have "sort_c (no_options\<lparr>o_silent := Some True\<rparr>) c3 = Inr c4" by simp
    then show ?thesis
      by (cases "comparator c3") (auto simp: sort_c_def Let_def truthy_def split: if_splits)
  next
    case False
    with assms show ?thesis by simp
  qed
  then show "heap c4 = heap c3" "next_cid c4 = next_cid c3" "set (models c4) = set (models c3)"
    "byId c4 = byId c3" "log c4 = log c3" "length_c c4 = length_c c3"
    "length (models c4) = length (models c3)"
    by auto
  show "\<not> srt \<Longrightarrow> c4 = c3" using assms by simp
qed

section \<open>A listener on \<open>remove\<close> finds the index purged\<close>

text \<open>
  In a collection whose index has no entry under the key \<open>"undefined"\<close>, every \<open>remove\<close>
  event that \<open>_removeModels\<close> triggers, called on its own, by \<open>remove\<close> or by \<open>set\<close>,
  fires on an index from which both keys of the removed model (its \<open>cid\<close> and, when it is
  not null, its id) are already deleted, and \<open>get\<close> of the id of the removed model, called
  during the event, returns \<open>undefined\<close>.
\<close>

lemma remove_event_index_purged:
  assumes "byId c KUndefined = None"
  shows "list_all (purged (snd (snd (removeModels xs opts removed c))))
           (new_entries c (snd (snd (removeModels xs opts removed c))))
       \<and> list_all (purged (snd (remove_c ys opts' c))) (new_entries c (snd (remove_c ys opts' c)))
       \<and> list_all (purged (state_of (set_c ms o0 c))) (new_entries c (state_of (set_c ms o0 c)))"
proof -
  obtain r o1 c1 where rm: "removeModels xs opts removed c = (r, o1, c1)"
    by (cases "removeModels xs opts removed c")
  from removeModels_purged[OF rm assms] obtain new where new:
    "log c1 = log c @ new" "\<forall>e\<in>set new. purged c e"
    "\<forall>m. attributes (heap c1 m) = attributes (heap c m)" by blast
  have "\<forall>e\<in>set new. purged c1 e"
    using new(2) purged_heap_cong[of c1 c] new(3) by simp
  then have "list_all (purged c1) (new_entries c c1)"
    using new(1) by (simp add: new_entries_def list_all_iff)
  then show ?thesis
    using rm appended_new_entries[OF remove_c_purged[OF assms]]
      appended_new_entries[OF set_c_purged[OF assms]] by simp
qed

section \<open>The insertion index \<open>at\<close>\<close>

text \<open>
  C5, as the code has it. For a \<open>set\<close> call with an explicit \<open>at\<close> that returns, the index
  is \<open>at\<close>, capped at \<open>length\<close>, a negative value counted as \<open>at + length + 1\<close>. The new
  models are spliced into \<open>models\<close>, as the removals of the call leave it, at that index
  clamped to the range from 0 to the length of \<open>models\<close>; except when \<open>add\<close> and \<open>remove\<close>
  are both enabled and the call keeps or adds at least one model: then \<open>models\<close> is replaced
  by the kept and the new models in the order of the input.
\<close>

theorem set_at_splices_unless_replaced:
  assumes "o_at o0 = Some a" and "returned (set_c ms o0 c)"
  shows "\<exists>l c1 toRemove removed o1 c2 r k.
      set_scan ms o0 c = (l, c1)
      \<and> (if truthy (o_remove (set_opts o0)) then stale c1 (l_modelMap l) else Inr []) = Inr toRemove
      \<and> removeModels (map (\<lambda>m. Item (Ref m)) toRemove) (set_opts o0) [] c1 = (removed, o1, c2)
      \<and> set_at o0 c = Some r
      \<and> r = (if (if a > length_c c then length_c c else a) < 0
              then (if a > length_c c then length_c c else a) + length_c c + 1
              else (if a > length_c c then length_c c else a))
      \<and> k = nat (min (max r 0) (int (length (models c2))))
      \<and> k \<le> length (models c2)
      \<and> models (state_of (set_c ms o0 c))
          = (if truthy (o_add (set_opts o0)) \<and> truthy (o_remove (set_opts o0)) \<and> l_set l \<noteq> []
             then l_set l
             else take k (models c2) @ l_toAdd l @ drop k (models c2))"
proof (cases rule: set_c_run[of ms o0 c])
  case (stale_throws l c1)
  then show ?thesis using assms(2) by simp
next
  case (returns l c1 toRemove removed o1 c2 c3 srt oc c4)
  define r where "r = (if (if a > length_c c then length_c c else a) < 0
                   then (if a > length_c c then length_c c else a) + length_c c + 1
                   else (if a > length_c c then length_c c else a))"
  define k where "k = nat (min (max r 0) (int (length (models c2))))"
  have oa: "o_at (set_opts o0) = Some a"
    using assms(1) by (simp add: set_opts_def js_extend_def over_def)
  have at: "set_at o0 c = Some r"
    using oa by (simp add: set_at_def resolve_at_def Let_def r_def)
  then have ns: "\<not> set_sortable o0 c" by (simp add: set_sortable_def)
  have ls: "\<not> l_sort l" using l_sort_set_scan[of ms o0 c] returns(1) ns by auto
  have fl: "o_add o1 = o_add (set_opts o0)" "o_remove o1 = o_remove (set_opts o0)"
    using removeModels_opts[OF returns(3)] by simp_all
  have kl: "k \<le> length (models c2)" by (simp add: k_def)
  have sp: "models c3 = (if truthy (o_add (set_opts o0)) \<and> truthy (o_remove (set_opts o0)) \<and> l_set l \<noteq> []
             then l_set l
             else take k (models c2) @ l_toAdd l @ drop k (models c2))" "\<not> srt"
    using returns(4) ls ns at unfolding fl[symmetric]
    by (auto simp: set_place_def Let_def splice_c_eq k_def split: if_splits)
  have "c4 = c3" using returns(5) sp(2) by simp
  then have "models (state_of (set_c ms o0 c)) = models c3"
    by (simp add: returns(6) state_of_def)
  with sp(1) have fin: "models (state_of (set_c ms o0 c))
          = (if truthy (o_add (set_opts o0)) \<and> truthy (o_remove (set_opts o0)) \<and> l_set l \<noteq> []
             then l_set l
             else take k (models c2) @ l_toAdd l @ drop k (models c2))" by simp
  show ?thesis
    using returns(1-3) at r_def k_def kl fin by blast
qed

theorem set_at_splices_unless_replaced_witness:
  "o_at (no_options\<lparr>o_at := Some 1, o_remove := Some False\<rparr>) = Some 1
   \<and> returned (set_c [raw_id 7] (no_options\<lparr>o_at := Some 1, o_remove := Some False\<rparr>) two_models)
   \<and> (\<exists>l c1 toRemove removed o1 c2 r k.
      set_scan [raw_id 7] (no_options\<lparr>o_at := Some 1, o_remove := Some False\<rparr>) two_models = (l, c1)
      \<and> (if truthy (o_remove (set_opts (no_options\<lparr>o_at := Some 1, o_remove := Some False\<rparr>))) then stale c1 (l_modelMap l) else Inr []) = Inr toRemove
      \<and> removeModels (map (\<lambda>m. Item (Ref m)) toRemove) (set_opts (no_options\<lparr>o_at := Some 1, o_remove := Some False\<rparr>)) [] c1 = (removed, o1, c2)
      \<and> set_at (no_options\<lparr>o_at := Some 1, o_remove := Some False\<rparr>) two_models = Some r
      \<and> r = (if (if 1 > length_c two_models then length_c two_models else 1) < 0
              then (if 1 > length_c two_models then length_c two_models else 1) + length_c two_models + 1
              else (if 1 > length_c two_models then length_c two_models else 1))
      \<and> k = nat (min (max r 0) (int (length (models c2))))
      \<and> k \<le> length (models c2)
      \<and> models (state_of (set_c [raw_id 7] (no_options\<lparr>o_at := Some 1, o_remove := Some False\<rparr>) two_models))
          = (if truthy (o_add (set_opts (no_options\<lparr>o_at := Some 1, o_remove := Some False\<rparr>))) \<and> truthy (o_remove (set_opts (no_options\<lparr>o_at := Some 1, o_remove := Some False\<rparr>))) \<and> l_set l \<noteq> []
             then l_set l
             else take k (models c2) @ l_toAdd l @ drop k (models c2)))
   \<and> models (state_of (set_c [raw_id 7] (no_options\<lparr>o_at := Some 1, o_remove := Some False\<rparr>) two_models)) = [1, 3, 2]"
proof -
  have h1: "o_at (no_options\<lparr>o_at := Some 1, o_remove := Some False\<rparr>) = Some 1"
    by (simp add: no_options_def)
  have h2: "returned (set_c [raw_id 7] (no_options\<lparr>o_at := Some 1, o_remove := Some False\<rparr>) two_models)"
    by (simp add: returned_def set_defs run_defs sample_defs)
  have ms: "models (state_of (set_c [raw_id 7] (no_options\<lparr>o_at := Some 1, o_remove := Some False\<rparr>) two_models)) = [1, 3, 2]"
    by (simp add: set_defs run_defs sample_defs)
  show ?thesis
    by (intro conjI h1 h2 ms set_at_splices_unless_replaced [OF h1 h2])
qed

text \<open>
  With \<open>add\<close> and \<open>remove\<close> enabled, as \<open>set\<close> has them by default, \<open>models\<close> is replaced
  by the kept and the new models in the order of the input: given the two members and one
  new item at \<open>at = 0\<close>, the new model ends last, where splicing at 0 would have put it
  first.
\<close>

theorem set_at_ignored_on_replace:
  "set_at (no_options\<lparr>o_at := Some 0\<rparr>) two_models = Some 0
   \<and> l_toAdd (fst (set_scan [Ref 1, Ref 2, raw_id 7] (no_options\<lparr>o_at := Some 0\<rparr>) two_models)) = [3]
   \<and> models (state_of (set_c [Ref 1, Ref 2, raw_id 7] (no_options\<lparr>o_at := Some 0\<rparr>) two_models))
       = [1, 2, 3]
   \<and> splice_c (models two_models) [3] 0 = [3, 1, 2]"
  by (simp add: set_defs run_defs sample_defs)

section \<open>The order of the events of \<open>set\<close>\<close>




section \<open>The index after a silent merge\<close>

text \<open>
  C1, at the input where the code departs from it. After \<open>add([{id: 5}, {}])\<close>, the call
  \<open>set([{cid: 'c1', id: 7}], {silent: true, remove: false})\<close> finds \<open>c1\<close> through the
  \<open>cid\<close> of the raw object and merges the id 7 into it. No \<open>change\<close> event reaches
  \<open>_onModelEvent\<close>: \<open>c1\<close> is in \<open>models\<close> with id 7, \<open>_byId\<close> has no entry under 7 and
  still holds \<open>c1\<close> under 5. The same call without \<open>silent\<close> moves the key from 5 to 7.
\<close>

theorem silent_merge_by_cid_breaks_index:
  "models (run [Add [raw_id 5, Raw blank_attrs] no_options,
        Set [Raw \<lparr>a_id = Num 7, a_cid = Some 1, a_rest = []\<rparr>] (no_options\<lparr>o_silent := Some True, o_remove := Some False\<rparr>)]
       (reset_state empty_collection)) = [1, 2]
   \<and> idOf (run [Add [raw_id 5, Raw blank_attrs] no_options,
        Set [Raw \<lparr>a_id = Num 7, a_cid = Some 1, a_rest = []\<rparr>] (no_options\<lparr>o_silent := Some True, o_remove := Some False\<rparr>)]
       (reset_state empty_collection)) 1 = Num 7
   \<and> byId (run [Add [raw_id 5, Raw blank_attrs] no_options,
        Set [Raw \<lparr>a_id = Num 7, a_cid = Some 1, a_rest = []\<rparr>] (no_options\<lparr>o_silent := Some True, o_remove := Some False\<rparr>)]
       (reset_state empty_collection)) (KNum 7) = None
   \<and> byId (run [Add [raw_id 5, Raw blank_attrs] no_options,
        Set [Raw \<lparr>a_id = Num 7, a_cid = Some 1, a_rest = []\<rparr>] (no_options\<lparr>o_silent := Some True, o_remove := Some False\<rparr>)]
       (reset_state empty_collection)) (KNum 5) = Some 1
   \<and> byId (run [Add [raw_id 5, Raw blank_attrs] no_options,
        Set [Raw \<lparr>a_id = Num 7, a_cid = Some 1, a_rest = []\<rparr>] (no_options\<lparr>o_remove := Some False\<rparr>)]
       (reset_state empty_collection)) (KNum 7) = Some 1
   \<and> byId (run [Add [raw_id 5, Raw blank_attrs] no_options,
        Set [Raw \<lparr>a_id = Num 7, a_cid = Some 1, a_rest = []\<rparr>] (no_options\<lparr>o_remove := Some False\<rparr>)]
       (reset_state empty_collection)) (KNum 5) = None"
  by (simp add: idOf_def call_defs set_defs run_defs sample_defs)

text \<open>
  C3, at the input where the code departs from it. In the collection that the silent merge
  leaves, \<open>c1\<close> is in \<open>models\<close> with id 7 and \<open>length\<close> is 2. The call
  \<open>set([{id: 7}], {remove: false})\<close> does not find \<open>c1\<close> under 7, constructs \<open>c3\<close> and
  appends it: \<open>length\<close> is 3.
\<close>

theorem set_matching_raw_item_grows_on_stale_index:
  "models (run [Add [raw_id 5, Raw blank_attrs] no_options,
        Set [Raw \<lparr>a_id = Num 7, a_cid = Some 1, a_rest = []\<rparr>] (no_options\<lparr>o_silent := Some True, o_remove := Some False\<rparr>)]
       (reset_state empty_collection)) = [1, 2]
   \<and> length_c (run [Add [raw_id 5, Raw blank_attrs] no_options,
        Set [Raw \<lparr>a_id = Num 7, a_cid = Some 1, a_rest = []\<rparr>] (no_options\<lparr>o_silent := Some True, o_remove := Some False\<rparr>)]
       (reset_state empty_collection)) = 2
   \<and> idOf (run [Add [raw_id 5, Raw blank_attrs] no_options,
        Set [Raw \<lparr>a_id = Num 7, a_cid = Some 1, a_rest = []\<rparr>] (no_options\<lparr>o_silent := Some True, o_remove := Some False\<rparr>)]
       (reset_state empty_collection)) 1 = modelId (item_attrs empty_collection (raw_id 7))
   \<and> models (run [Add [raw_id 5, Raw blank_attrs] no_options,
        Set [Raw \<lparr>a_id = Num 7, a_cid = Some 1, a_rest = []\<rparr>] (no_options\<lparr>o_silent := Some True, o_remove := Some False\<rparr>),
        Set [raw_id 7] (no_options\<lparr>o_remove := Some False\<rparr>)]
       (reset_state empty_collection)) = [1, 2, 3]
   \<and> length_c (run [Add [raw_id 5, Raw blank_attrs] no_options,
        Set [Raw \<lparr>a_id = Num 7, a_cid = Some 1, a_rest = []\<rparr>] (no_options\<lparr>o_silent := Some True, o_remove := Some False\<rparr>),
        Set [raw_id 7] (no_options\<lparr>o_remove := Some False\<rparr>)]
       (reset_state empty_collection)) = 3"
  by (simp add: idOf_def modelId_def item_attrs_def call_defs set_defs run_defs sample_defs)

section \<open>Where the index is consistent\<close>

text \<open>
  Take a collection as its constructor leaves it after \<open>_reset\<close>, and any sequence of
  \<open>add\<close>, \<open>remove\<close>, \<open>set\<close> and \<open>reset\<close> calls whose items are constructed models or raw
  objects, where no call that is silent and merges is given a raw object with both a
  \<open>cid\<close> property and an id. Then the index is consistent at the end of each call.
\<close>

lemma index_consistent_after_guarded_calls:
  assumes "calls_ok (reset_state c) ks" and "n \<le> length ks"
  shows "index_consistent (run (take n ks) (reset_state c))"
  by (rule inv_index_consistent[OF run_inv[OF inv_reset_state calls_ok_take[OF assms(1)]]])

text \<open>
  In a collection whose index is consistent, \<open>set\<close> with a raw item whose id is not null
  and is the id of a model \<open>e\<close> of the collection returns that model; \<open>length\<close> does not
  grow, no model is constructed, and the attributes of \<open>e\<close> are merged with the item when
  \<open>merge\<close> is enabled and are left alone otherwise.
\<close>

lemma set_raw_item_on_consistent_index:
  assumes iv: "inv c" and e: "e \<in> set (models c)"
    and nn: "not_null (modelId a)" and same: "idOf c e = modelId a"
  shows "\<exists>c'. set_c [Raw a] o0 c = Inr ([RModel e], c')
     \<and> length_c c' \<le> length_c c \<and> set (models c') \<subseteq> set (models c) \<and> e \<in> set (models c')
     \<and> next_cid c' = next_cid c
     \<and> attributes (heap c' e)
         = (if truthy (o_merge (set_opts o0)) then merge_attrs (attributes (heap c e)) a
            else attributes (heap c e))"
proof -
  let ?opts = "set_opts o0" and ?sa = "sortAttr_of (comparator c)"
  note g = get_c_raw_by_id[OF iv e nn same]
  have scan: "set_scan [Raw a] o0 c = set_step ?opts (set_sortable o0 c) ?sa (Raw a) (setloop0, c)"
    by (simp add: set_scan_def)
  have si: "scan_inv (set (models c)) (set_scan [Raw a] o0 c)"
    unfolding scan
    by (rule set_step_existing[OF scan_inv_init[OF iv] _ g(1)]) (simp add: item_attrs_def g(2))
  show ?thesis
  proof (rule set_c_inv_run[OF iv si], goal_cases)
    case (1 l c1 toRemove removed o1 c2 c3 srt oc c4)
    let ?c' = "set_emit o1 (set_at o0 c) l toRemove srt oc c4"
    note sc = 1(1) and tr = 1(3) and rm = 1(4) and m2 = 1(5) and sp = 1(6) and so = 1(8)
      and res = 1(10) and iv' = 1(11)
    note sf = set_step_found[OF g(1), of ?opts "set_sortable o0 c" ?sa setloop0]
    have l: "l_toAdd l = []" "l_set l = [e]" "l_out l = [RModel e]"
      using sf(1,2,3) sc scan by (simp_all add: setloop0_def)
    have c1: "c1 = (if truthy (o_merge ?opts) then model_set e a ?opts c else c)"
      using sf(4) sc scan by (simp add: item_attrs_def)
    have n1: "next_cid c1 = next_cid c" by (simp add: c1)
    have a1: "attributes (heap c1 e)
         = (if truthy (o_merge ?opts) then merge_attrs (attributes (heap c e)) a
            else attributes (heap c e))"
      by (simp add: c1 heap_model_set)
    have "e \<notin> set toRemove" by (simp add: tr l)
    then have e2: "e \<in> set (models c2)" using e by (simp add: m2)
    have s2: "set (models c2) \<subseteq> set (models c)" by (simp add: m2)
    have m3: "models c3 = [e] \<or> models c3 = models c2"
      using set_place_no_add[OF l(1) sp] l(2) by simp
    have h3: "heap c3 = heap c2" "next_cid c3 = next_cid c2"
      using sp frame_set_place(2,5)[of o1 "set_sortable o0 c" "set_at o0 c" l c2] by simp_all
    note c4 = sort_step_frame[OF so]
    have "set (models c4) \<subseteq> set (models c)" "e \<in> set (models c4)"
      using m3 e2 e s2 unfolding c4(3) by auto
    then have sub: "set (models ?c') \<subseteq> set (models c)" "e \<in> set (models ?c')"
      by simp_all
    have "distinct (models ?c')" "length_c ?c' = int (length (models ?c'))"
      using iv' by (simp_all add: inv_def)
    moreover have "length_c c = int (length (models c))" using iv by (simp add: inv_def)
    moreover have "card (set (models ?c')) \<le> card (set (models c))"
      by (rule card_mono[OF _ sub(1)]) simp
    ultimately have len: "length_c ?c' \<le> length_c c"
      using card_length[of "models c"] by (simp add: distinct_card)
    have nc: "next_cid ?c' = next_cid c"
      using c4(2) h3(2) frame_removeModels(3)[OF rm] n1 by simp
    have at: "attributes (heap ?c' e) = attributes (heap c1 e)"
      using c4(1) h3(1) attributes_removeModels[OF rm] by simp
    have r: "set_c [Raw a] o0 c = Inr ([RModel e], ?c')" using res l(3) by simp
    have at': "attributes (heap ?c' e)
         = (if truthy (o_merge (set_opts o0)) then merge_attrs (attributes (heap c e)) a
            else attributes (heap c e))"
      using at a1 by (simp only:)
    show ?thesis
      by (intro exI[of _ ?c'] conjI r len sub nc at')
  qed
qed

section \<open>An item that fails validation\<close>









section \<open>\<open>set\<close> of the collection's own \<open>toJSON\<close>\<close>

lemma set_step_found_map:
  assumes "get_c c (Item x) = Some e"
  shows "l_modelMap (fst (set_step opts sortable sa x (l, c))) = insert e (l_modelMap l)"
  using assms by (auto simp: set_step_def Let_def split: prod.splits)

lemma own_step:
  assumes B: "byId cs = byId c" and I: "\<forall>x. idOf cs x = idOf c x"
    and H3: "\<forall>m\<in>set (models c). not_null (idOf c m) \<and> byId c (key_of (idOf c m)) = Some m"
    and H4: "byId c KObject = None" and m: "m \<in> set (models c)"
  shows "get_c cs (Item (Raw (attributes (heap c m)))) = Some m"
    "byId (snd (set_step opts sortable sa (Raw (attributes (heap c m))) (l, cs))) = byId c"
    "\<forall>x. idOf (snd (set_step opts sortable sa (Raw (attributes (heap c m))) (l, cs))) x = idOf c x"
proof -
  let ?a = "attributes (heap c m)"
  have id: "modelId ?a = idOf c m" "a_id ?a = idOf cs m"
    using I by (simp_all add: idOf_def modelId_def)
  show g: "get_c cs (Item (Raw ?a)) = Some m"
    using H3 H4 m by (simp add: B id orElse_def)
  note sf = set_step_found(4)[OF g, where opts=opts and sortable=sortable and sa=sa and l=l]
  have b: "byId (model_set m ?a opts cs) = byId cs"
    by (rule byId_model_set_same) (simp add: id)
  show "byId (snd (set_step opts sortable sa (Raw ?a) (l, cs))) = byId c"
    unfolding sf using b B by (simp add: item_attrs_def)
  have "idOf (model_set m ?a opts cs) x = idOf cs x" for x
    by (simp add: idOf_model_set id)
  then show "\<forall>x. idOf (snd (set_step opts sortable sa (Raw ?a) (l, cs))) x = idOf c x"
    unfolding sf using I by (simp add: item_attrs_def)
qed

lemma own_scan:
  assumes "byId (snd lc) = byId c" and "\<forall>x. idOf (snd lc) x = idOf c x"
    and H3: "\<forall>m\<in>set (models c). not_null (idOf c m) \<and> byId c (key_of (idOf c m)) = Some m"
    and H4: "byId c KObject = None"
    and "set ms \<subseteq> set (models c)" and "distinct ms" and "set ms \<inter> set (l_set (fst lc)) = {}"
    and "l_modelMap (fst lc) = set (l_set (fst lc))" and "l_toAdd (fst lc) = []"
  shows "l_set (fst (fold (set_step opts sortable sa) (map (\<lambda>m. Raw (attributes (heap c m))) ms) lc))
           = l_set (fst lc) @ ms
     \<and> l_toAdd (fst (fold (set_step opts sortable sa) (map (\<lambda>m. Raw (attributes (heap c m))) ms) lc)) = []
     \<and> l_modelMap (fst (fold (set_step opts sortable sa) (map (\<lambda>m. Raw (attributes (heap c m))) ms) lc))
           = set (l_set (fst lc) @ ms)"
  using assms(1,2,5-9)
proof (induction ms arbitrary: lc)
  case Nil
  then show ?case by simp
next
  case (Cons m ms)
  obtain l cs where lc: "lc = (l, cs)" by (cases lc)
  let ?x = "Raw (attributes (heap c m))"
  let ?lc' = "set_step opts sortable sa ?x (l, cs)"
  have m: "m \<in> set (models c)" using Cons.prems(3) by simp
  note g = own_step(1)[OF Cons.prems(1)[unfolded lc snd_conv] Cons.prems(2)[unfolded lc snd_conv] H3 H4 m]
  note os = own_step(2,3)[OF Cons.prems(1)[unfolded lc snd_conv] Cons.prems(2)[unfolded lc snd_conv] H3 H4 m,
      of opts sortable sa l]
  note sf = set_step_found[OF g, of opts sortable sa l]
  have nm: "m \<notin> l_modelMap l" using Cons.prems(5,6) by (simp add: lc)
  have ls: "l_set (fst ?lc') = l_set l @ [m]" using sf(2) nm by simp
  have mm: "l_modelMap (fst ?lc') = set (l_set (fst ?lc'))"
    using set_step_found_map[OF g, of opts sortable sa l] Cons.prems(6) by (simp add: ls lc)
  have ta: "l_toAdd (fst ?lc') = []" using sf(1) Cons.prems(7) by (simp add: lc)
  have dj: "set ms \<inter> set (l_set (fst ?lc')) = {}"
    using Cons.prems(4,5) by (auto simp: ls lc)
  have "set ms \<subseteq> set (models c)" "distinct ms" using Cons.prems(3,4) by simp_all
  from Cons.IH[OF os(1) os(2) this dj mm ta] show ?case
    by (simp add: lc ls)
qed


lemma appended_set_emit_no_add:
  assumes "l_toAdd l = []"
  shows "appended (\<lambda>e. \<not> is_add (e_event e) \<and> \<not> is_remove (e_event e)) c
           (set_emit opts at l tr srt oc c)"
proof -
  let ?P = "\<lambda>e. \<not> is_add (e_event e) \<and> \<not> is_remove (e_event e)"
  have 2: "appended ?P x (trigger OnCollection EvSort x)" for x
    by (rule appended_trigger) simp
  have 3: "appended ?P x (trigger OnCollection (EvUpdate a b d) x)" for x a b d
    by (rule appended_trigger) simp
  show ?thesis
    using 2 3 appended_trans[OF 2 3] by (simp add: set_emit_def assms Let_def)
qed

lemma set_place_no_add_state:
  assumes "l_toAdd l = []" "set_place o1 s at l c2 = (c3, srt, oc)"
  shows "c3 = c2\<lparr>models := l_set l, length_c := int (length (l_set l))\<rparr> \<or> c3 = c2"
proof (cases "l_set l \<noteq> [] \<and> \<not> s \<and> truthy (o_add o1) \<and> truthy (o_remove o1)")
  case True
  then have "c3 = c2\<lparr>models := l_set l, length_c := int (length (l_set l))\<rparr>"
    using assms(2) by (simp add: set_place_def Let_def)
  then show ?thesis by simp
next
  case False
  then have "c3 = c2" using assms by (auto simp: set_place_def Let_def)
  then show ?thesis by simp
qed

lemma stale_none:
  assumes "length_c c1 = int (length (models c1))" "set (models c1) \<subseteq> mm"
  shows "stale c1 mm = Inr []"
proof -
  have "take (nat (length_c c1)) (models c1) = models c1" using assms(1) by simp
  moreover have "filter (\<lambda>m. m \<notin> mm) (models c1) = []"
    using assms(2) by (auto simp: filter_empty_conv)
  ultimately show ?thesis using assms(1) by (simp add: stale_def)
qed

text \<open>
  C6, as the code has it. Take a collection in which \<open>length\<close> is the number of models,
  no model occurs twice in \<open>models\<close>, every model has an id that is not null and under
  which \<open>_byId\<close> holds it, and \<open>_byId\<close> has no entry under the key
  \<open>"[object Object]"\<close>. Then \<open>set\<close> of its own \<open>toJSON\<close> returns, \<open>length\<close> and the
  members of \<open>models\<close> are the same after the call, and the call triggers no \<open>add\<close> and
  no \<open>remove\<close> event.
\<close>

theorem set_own_json_keeps_members:
  assumes H1: "length_c c = int (length (models c))" and H2: "distinct (models c)"
    and H3: "list_all (\<lambda>m. not_null (idOf c m) \<and> byId c (key_of (idOf c m)) = Some m) (models c)"
    and H4: "byId c KObject = None"
  shows "\<exists>out c'. set_c (toJSON c) no_options c = Inr (out, c')
     \<and> length_c c' = length_c c \<and> set (models c') = set (models c) \<and> distinct (models c')
     \<and> list_all (\<lambda>e. \<not> is_add (e_event e) \<and> \<not> is_remove (e_event e)) (new_entries c c')"
proof -
  let ?P = "\<lambda>e. \<not> is_add (e_event e) \<and> \<not> is_remove (e_event e)"
  let ?o = "set_opts no_options"
  have H3': "\<forall>m\<in>set (models c). not_null (idOf c m) \<and> byId c (key_of (idOf c m)) = Some m"
    using H3 by (simp add: list_all_iff)
  have on: "truthy (o_remove ?o)" "truthy (o_add ?o)"
    by (simp_all add: set_opts_def js_extend_def setOptions_def no_options_def over_def truthy_def)
  have "l_set (fst (set_scan (toJSON c) no_options c)) = l_set (fst (setloop0, c)) @ models c
      \<and> l_toAdd (fst (set_scan (toJSON c) no_options c)) = []
      \<and> l_modelMap (fst (set_scan (toJSON c) no_options c)) = set (l_set (fst (setloop0, c)) @ models c)"
    unfolding set_scan_def toJSON_def
    by (rule own_scan[OF _ _ H3' H4 subset_refl H2]) (simp_all add: setloop0_def)
  then have so: "l_set (fst (set_scan (toJSON c) no_options c)) = models c"
    "l_toAdd (fst (set_scan (toJSON c) no_options c)) = []"
    "l_modelMap (fst (set_scan (toJSON c) no_options c)) = set (models c)"
    by (simp_all add: setloop0_def)
  show ?thesis
  proof (cases rule: set_c_run[of "toJSON c" no_options c])
    case (stale_throws l c1)
    have "models c1 = models c" "length_c c1 = length_c c"
      using frame_set_scan(1,2)[of "toJSON c" no_options c] stale_throws(1) by simp_all
    then have "stale c1 (l_modelMap l) \<noteq> Inl TypeError" using H1 by (simp add: stale_def)
    with stale_throws(3) show ?thesis by simp
  next
    case (returns l c1 toRemove removed o1 c2 c3 srt oc c4)
    let ?c' = "set_emit o1 (set_at no_options c) l toRemove srt oc c4"
    have l: "l_set l = models c" "l_toAdd l = []" "l_modelMap l = set (models c)"
      using so returns(1) by simp_all
    have f1: "models c1 = models c" "length_c c1 = length_c c"
      using frame_set_scan(1,2)[of "toJSON c" no_options c] returns(1) by simp_all
    have st: "stale c1 (l_modelMap l) = Inr []"
      by (rule stale_none) (simp_all add: f1 H1 l(3))
    have tr: "toRemove = []"
      using returns(2)[unfolded if_P[OF on(1)] st] by simp
    have "removeModels [] ?o [] c1 = (removed, o1, c2)"
      using returns(3) unfolding tr by (simp only: list.map)
    then have c2: "c2 = c1" "o1 = ?o" by simp_all
    have "c3 = c2\<lparr>models := l_set l, length_c := int (length (l_set l))\<rparr> \<or> c3 = c2"
      by (rule set_place_no_add_state[OF l(2) returns(4)])
    then have e3: "models c3 = models c" and n3: "length_c c3 = length_c c"
      unfolding c2(1) l(1) using f1 H1 by auto
    note c4 = sort_step_frame[OF returns(5)]
    have s': "set (models ?c') = set (models c)" using c4(3) e3 by simp
    have len: "length_c ?c' = length_c c" using c4(6) n3 by simp
    have "length (models ?c') = length (models c)" using c4(7) e3 by simp
    then have dis: "distinct (models ?c')"
      using s' H2 card_distinct[of "models ?c'"] distinct_card[of "models c"] by simp
    have "appended (\<lambda>e. is_invalid (e_event e) \<or> is_change (e_event e)) c c1"
      using appended_fold_set_step[of "(setloop0, c)" ?o "set_sortable no_options c"
          "sortAttr_of (comparator c)" "toJSON c"] returns(1) by (simp add: set_scan_def)
    then have a1: "appended ?P c c1"
      by (rule appended_mono) (case_tac "e_event e"; simp)
    have l3: "log c3 = log c2"
      using returns(4) frame_set_place(1)[of o1 "set_sortable no_options c" "set_at no_options c" l c2]
      by simp
    have l4: "log c4 = log c1" using c4(5) l3 c2 by simp
    have a2: "appended ?P c1 c4" by (rule appended_same_log[OF l4])
    have a3: "appended ?P c4 ?c'" by (rule appended_set_emit_no_add[OF l(2)])
    have ev: "list_all ?P (new_entries c ?c')"
      by (rule appended_new_entries[OF appended_trans[OF appended_trans[OF a1 a2] a3]])
    show ?thesis
      by (intro exI[of _ "l_out l"] exI[of _ ?c'] conjI returns(6) len s' dis ev)
  qed
qed

theorem set_own_json_keeps_members_witness:
  "length_c two_with_ids = int (length (models two_with_ids))
   \<and> distinct (models two_with_ids)
   \<and> list_all (\<lambda>m. not_null (idOf two_with_ids m)
          \<and> byId two_with_ids (key_of (idOf two_with_ids m)) = Some m) (models two_with_ids)
   \<and> byId two_with_ids KObject = None
   \<and> (\<exists>out c'. set_c (toJSON two_with_ids) no_options two_with_ids = Inr (out, c')
        \<and> length_c c' = length_c two_with_ids \<and> set (models c') = set (models two_with_ids)
        \<and> distinct (models c')
        \<and> list_all (\<lambda>e. \<not> is_add (e_event e) \<and> \<not> is_remove (e_event e))
             (new_entries two_with_ids c'))
   \<and> models two_with_ids = [1, 2]
   \<and> direct (new_entries two_with_ids (state_of (set_c (toJSON two_with_ids) no_options two_with_ids)))
       = [EvUpdate [] [] [1, 2]]"
proof -
  have h1: "length_c two_with_ids = int (length (models two_with_ids))"
    and h2: "distinct (models two_with_ids)"
    and h3: "list_all (\<lambda>m. not_null (idOf two_with_ids m)
          \<and> byId two_with_ids (key_of (idOf two_with_ids m)) = Some m) (models two_with_ids)"
    and h4: "byId two_with_ids KObject = None"
    and e1: "models two_with_ids = [1, 2]"
    by (simp_all add: two_with_ids_def idOf_def call_defs set_defs run_defs sample_defs)
  have e2: "direct (new_entries two_with_ids (state_of (set_c (toJSON two_with_ids) no_options two_with_ids)))
       = [EvUpdate [] [] [1, 2]]"
    by (simp add: two_with_ids_def toJSON_def direct_def proxied_def call_defs set_defs run_defs sample_defs)
  show ?thesis
    by (intro conjI h1 h2 h3 h4 e1 e2 set_own_json_keeps_members [OF h1 h2 h3 h4])
qed

text \<open>
  \<open>toJSON\<close> gives the attributes of a model and not its \<open>cid\<close>: a model without an id
  is not found again. Of the two members \<open>c1\<close> (id 5) and \<open>c2\<close> (no id), \<open>c2\<close> is
  removed and a new model \<open>c3\<close> takes its place, with a \<open>remove\<close> and an \<open>add\<close> event.
\<close>

theorem set_own_json_replaces_model_without_id:
  "models two_models = [1, 2]
   \<and> idOf two_models 2 = Undefined
   \<and> models (state_of (set_c (toJSON two_models) no_options two_models)) = [1, 3]
   \<and> direct (new_entries two_models (state_of (set_c (toJSON two_models) no_options two_models)))
      = [EvRemove 2 (Some 1), EvAdd 3 (Some 1), EvSort, EvUpdate [3] [2] [1]]"
  by (simp add: toJSON_def idOf_def direct_def proxied_def set_defs run_defs sample_defs)

section \<open>Iterator exhaustion\<close>

lemma next_it_detached:
  "\<not> it_collection it \<Longrightarrow> next_it c it = Inr (it, done_result)"
  by (simp add: next_it_def)

lemma nexts_detached:
  "\<not> it_collection it \<Longrightarrow> nexts cs it = replicate (length cs) (Inr done_result)"
  by (induction cs) (simp_all add: next_it_detached)

text \<open>
  C7. When \<open>next\<close> finds the position at or past the current length of the collection it
  returns a done result, and so does every later call, whatever the collection has become
  (in particular when it has grown).
\<close>

theorem iterator_exhausted_stays_done:
  assumes "length_c c \<le> it_index it"
  shows "\<exists>it1. next_it c it = Inr (it1, done_result) \<and> r_done done_result
           \<and> nexts cs it1 = replicate (length cs) (Inr done_result)"
proof (cases "it_collection it")
  case True
  with assms have "next_it c it = Inr (it\<lparr>it_collection := False\<rparr>, done_result)"
    by (simp add: next_it_def)
  moreover have "nexts cs (it\<lparr>it_collection := False\<rparr>) = replicate (length cs) (Inr done_result)"
    by (rule nexts_detached) simp
  ultimately show ?thesis by (simp add: done_result_def)
next
  case False
  then show ?thesis
    by (simp add: next_it_detached nexts_detached done_result_def)
qed

theorem iterator_exhausted_stays_done_witness:
  "length_c empty_collection \<le> it_index values_c
   \<and> (\<exists>it1. next_it empty_collection values_c = Inr (it1, done_result) \<and> r_done done_result
         \<and> nexts [empty_collection\<lparr>length_c := 2, models := [1, 2]\<rparr>] it1
            = replicate (length [empty_collection\<lparr>length_c := 2, models := [1, 2]\<rparr>])
                (Inr done_result))"
proof -
  have h: "length_c empty_collection \<le> it_index values_c"
    by (simp add: empty_collection_def values_c_def CollectionIterator_def)
  show ?thesis
    using h iterator_exhausted_stays_done [OF h] by blast
qed

end
